theory Spec2Isabelle
  imports Main "HOL-Library.Word"
begin

unbundle bit_operations_syntax

section \<open>Machine types\<close>

text \<open>
  \<open>secure_vector<uint8_t>\<close> is a list of bytes, \<open>wots_keysig_t\<close> a list of such
  lists. \<open>size_t\<close> is the 64-bit unsigned integer of an LP64 platform: addition,
  subtraction and multiplication wrap around. \<open>uint32_t\<close> is the width of one word of
  an address.
\<close>

type_synonym byte = "8 word"
type_synonym bytes = "byte list"
type_synonym u32 = "32 word"
type_synonym size_t = "64 word"
type_synonym wots_keysig_t = "bytes list"

section \<open>Errors\<close>

text \<open>
  The error kinds of section 7 of the specification, and two markers for executions that
  leave the defined behaviour of C++: a read or write of a buffer outside its size, and
  a shift of an \<open>int\<close> by its width or more.
\<close>

datatype error =
  LeafExhausted | InvalidOid | InvalidSignatureLength | HashUnavailable
  | Out_Of_Bounds | Undefined_Shift

section \<open>XMSS\_Address\<close>

text \<open>
  Modelled from the spec: \<open>xmss_address.hpp\<close> is not among the sources. Sections 3
  and 4.4 of the specification give the address as eight big-endian 32-bit words: layer
  address (word 0), tree address (words 1 and 2), type (word 3) and four type-specific
  words. \<open>set_type\<close> writes word 3 and zeroes words 4 to 7, the other setters write
  one word each, and \<open>bytes\<close> is the big-endian concatenation of the eight words.
\<close>

datatype Address_Type = OTS_Hash_Address | LTree_Address | Hash_Tree_Address

datatype Key_Mask = Key_Mode | Mask_Mode

record XMSS_Address =
  adrs_word0 :: u32
  adrs_word1 :: u32
  adrs_word2 :: u32
  adrs_word3 :: u32
  adrs_word4 :: u32
  adrs_word5 :: u32
  adrs_word6 :: u32
  adrs_word7 :: u32

fun type_code :: "Address_Type \<Rightarrow> u32" where
  "type_code OTS_Hash_Address = 0"
| "type_code LTree_Address = 1"
| "type_code Hash_Tree_Address = 2"

fun key_mask_code :: "Key_Mask \<Rightarrow> u32" where
  "key_mask_code Key_Mode = 0"
| "key_mask_code Mask_Mode = 1"

definition new_address :: XMSS_Address where
  "new_address = \<lparr>adrs_word0 = 0, adrs_word1 = 0, adrs_word2 = 0, adrs_word3 = 0,
     adrs_word4 = 0, adrs_word5 = 0, adrs_word6 = 0, adrs_word7 = 0\<rparr>"

definition set_type :: "Address_Type \<Rightarrow> XMSS_Address \<Rightarrow> XMSS_Address" where
  "set_type t a = a\<lparr>adrs_word3 := type_code t, adrs_word4 := 0, adrs_word5 := 0,
     adrs_word6 := 0, adrs_word7 := 0\<rparr>"

definition set_ots_address :: "u32 \<Rightarrow> XMSS_Address \<Rightarrow> XMSS_Address" where
  "set_ots_address v a = a\<lparr>adrs_word4 := v\<rparr>"

definition set_chain_address :: "u32 \<Rightarrow> XMSS_Address \<Rightarrow> XMSS_Address" where
  "set_chain_address v a = a\<lparr>adrs_word5 := v\<rparr>"

definition set_hash_address :: "u32 \<Rightarrow> XMSS_Address \<Rightarrow> XMSS_Address" where
  "set_hash_address v a = a\<lparr>adrs_word6 := v\<rparr>"

definition set_key_mask_mode :: "Key_Mask \<Rightarrow> XMSS_Address \<Rightarrow> XMSS_Address" where
  "set_key_mask_mode m a = a\<lparr>adrs_word7 := key_mask_code m\<rparr>"

definition be32 :: "u32 \<Rightarrow> bytes" where
  "be32 v = [ucast (drop_bit 24 v), ucast (drop_bit 16 v), ucast (drop_bit 8 v), ucast v]"

definition adrs_bytes :: "XMSS_Address \<Rightarrow> bytes" where
  "adrs_bytes a = be32 (adrs_word0 a) @ be32 (adrs_word1 a) @ be32 (adrs_word2 a) @
     be32 (adrs_word3 a) @ be32 (adrs_word4 a) @ be32 (adrs_word5 a) @
     be32 (adrs_word6 a) @ be32 (adrs_word7 a)"

section \<open>The keyed hash functions\<close>

text \<open>
  \<open>XMSS_Hash\<close> (\<open>xmss_hash.hpp\<close>) is not among the sources, and the hash primitive
  under it is an external collaborator. The functions the code calls are parameters:
  \<open>hash_prf key data\<close> and \<open>hash_f key data\<close> are \<open>prf\<close> and \<open>f\<close>, and the three
  operations of the incremental message hash act on a state of type \<open>'h\<close>.
\<close>

record 'h XMSS_Hash =
  hash_prf :: "bytes \<Rightarrow> bytes \<Rightarrow> bytes"
  hash_f :: "bytes \<Rightarrow> bytes \<Rightarrow> bytes"
  h_msg_init :: "bytes \<Rightarrow> bytes \<Rightarrow> bytes \<Rightarrow> 'h \<Rightarrow> 'h"
  h_msg_update :: "bytes \<Rightarrow> 'h \<Rightarrow> 'h"
  h_msg_final :: "'h \<Rightarrow> bytes \<times> 'h"

text \<open>
  Modelled from the spec: \<open>xor_buf\<close> belongs to a utility header that is not among the
  sources. Step 3 of the chaining function in section 4.2 is \<open>x \<leftarrow> x XOR bm\<close>;
  \<open>xor_buf out inp n\<close> replaces the first \<open>n\<close> bytes of \<open>out\<close> by their XOR with the
  bytes of \<open>inp\<close> at the same positions. It works on the raw buffers and checks no
  size: a count beyond the size of either buffer is \<open>Out_Of_Bounds\<close>.
\<close>

definition xor_buf :: "bytes \<Rightarrow> bytes \<Rightarrow> nat \<Rightarrow> error + bytes" where
  "xor_buf out inp n =
     (if n \<le> length out \<and> n \<le> length inp
      then Inr (map2 (XOR) (take n out) (take n inp) @ drop n out)
      else Inl Out_Of_Bounds)"

text \<open>
  The hash functions deliver \<open>n\<close> bytes when every output of \<open>prf\<close> and of \<open>f\<close> has
  that length; \<open>n\<close> is the element size of the parameter set.
\<close>

definition hash_width :: "'h XMSS_Hash \<Rightarrow> nat \<Rightarrow> bool" where
  "hash_width H n \<longleftrightarrow>
     (\<forall>key data. length (hash_prf H key data) = n) \<and>
     (\<forall>key data. length (hash_f H key data) = n)"

section \<open>XMSS\_WOTS\_Parameters\<close>

text \<open>
  \<open>xmss_wots_parameters.hpp\<close> is not among the sources: the Winternitz parameter, the
  lengths and the two digit functions the code calls are parameters.
\<close>

record XMSS_WOTS_Parameters =
  wots_parameter :: size_t
  wots_len :: size_t
  wots_len_1 :: size_t
  base_w :: "bytes \<Rightarrow> size_t \<Rightarrow> bytes"
  append_checksum :: "bytes \<Rightarrow> bytes"

section \<open>XMSS\_WOTS\_PublicKey::chain\<close>

text \<open>
  One pass through the body of the loop of \<open>chain\<close>, at index \<open>i\<close>: the hash address is
  set, the bitmask is drawn in mask mode and XORed in over \<open>result.size()\<close> bytes, the key
  is drawn in key mode and \<open>f\<close> is applied. \<open>set_hash_address\<close> takes a \<open>uint32_t\<close>.
\<close>

definition chain_step ::
  "'h XMSS_Hash \<Rightarrow> bytes \<Rightarrow> size_t \<Rightarrow> bytes \<times> XMSS_Address
     \<Rightarrow> error + bytes \<times> XMSS_Address" where
  "chain_step H seed i st =
     (let result = fst st;
          adrs1 = set_key_mask_mode Mask_Mode (set_hash_address (ucast i) (snd st))
      in case xor_buf result (hash_prf H seed (adrs_bytes adrs1)) (length result) of
           Inl e \<Rightarrow> Inl e
         | Inr result1 \<Rightarrow>
             (let adrs2 = set_key_mask_mode Key_Mode adrs1;
                  result2 = hash_f H (hash_prf H seed (adrs_bytes adrs2)) result1
              in Inr (result2, adrs2)))"

text \<open>
  The loop \<open>for (i = start_idx; i < start_idx + steps && i < w; i++)\<close>. The bound
  \<open>start_idx + steps\<close> is a \<open>size_t\<close> sum and wraps around; the counter cannot, since it
  stays below \<open>w\<close>.
\<close>

function chain_loop ::
  "'h XMSS_Hash \<Rightarrow> bytes \<Rightarrow> size_t \<Rightarrow> size_t \<Rightarrow> size_t \<Rightarrow> bytes \<times> XMSS_Address
     \<Rightarrow> error + bytes \<times> XMSS_Address" where
  "chain_loop H seed bound w i st =
     (if i < bound \<and> i < w then
        (case chain_step H seed i st of
           Inl e \<Rightarrow> Inl e
         | Inr st' \<Rightarrow> chain_loop H seed bound w (i + 1) st')
      else Inr st)"
  by pat_completeness auto
termination
proof (relation "measure (\<lambda>(H, seed, bound, w, i, st). unat w - unat i)")
  show "wf (measure (\<lambda>(H, seed, bound, w, i, st). unat w - unat i))"
    by simp
next
  fix H :: "'h XMSS_Hash" and seed :: bytes and bound w i :: size_t
    and st st' :: "bytes \<times> XMSS_Address"
  assume "i < bound \<and> i < w"
  then have lt: "unat i < unat w"
    by (simp add: word_less_nat_alt)
  have "unat w < 2 ^ 64"
    using unsigned_less [of w] by simp
  with lt have "unat (i + 1) = unat i + 1"
    by (simp add: unat_word_ariths)
  with lt show "((H, seed, bound, w, i + 1, st'), (H, seed, bound, w, i, st))
      \<in> measure (\<lambda>(H, seed, bound, w, i, st). unat w - unat i)"
    by simp
qed

declare chain_loop.simps [simp del]

definition chain ::
  "XMSS_WOTS_Parameters \<Rightarrow> 'h XMSS_Hash \<Rightarrow> bytes \<Rightarrow> size_t \<Rightarrow> size_t \<Rightarrow> XMSS_Address
     \<Rightarrow> bytes \<Rightarrow> error + bytes \<times> XMSS_Address" where
  "chain P H x start_idx steps adrs seed =
     chain_loop H seed (start_idx + steps) (wots_parameter P) start_idx (x, adrs)"

text \<open>
  The index lists over which the loop of \<open>chain\<close> is described: \<open>run_steps\<close> performs
  the loop body at each index of a list, in order, and stops at the first error.
  \<open>chain_result\<close> is the value a call leaves in its first argument.
\<close>

fun run_steps ::
  "'h XMSS_Hash \<Rightarrow> bytes \<Rightarrow> nat list \<Rightarrow> bytes \<times> XMSS_Address
     \<Rightarrow> error + bytes \<times> XMSS_Address" where
  "run_steps H seed [] st = Inr st"
| "run_steps H seed (j # js) st =
     (case chain_step H seed (of_nat j) st of
        Inl e \<Rightarrow> Inl e
      | Inr st' \<Rightarrow> run_steps H seed js st')"

definition chain_result :: "error + bytes \<times> XMSS_Address \<Rightarrow> error + bytes" where
  "chain_result r = (case r of Inl e \<Rightarrow> Inl e | Inr st \<Rightarrow> Inr (fst st))"

text \<open>
  Two addresses carry the same OTS and chain context when they agree on every word but
  the hash address (word 6) and the key-and-mask word (word 7).
\<close>

definition same_chain_context :: "XMSS_Address \<Rightarrow> XMSS_Address \<Rightarrow> bool" where
  "same_chain_context a b \<longleftrightarrow>
     adrs_word0 a = adrs_word0 b \<and> adrs_word1 a = adrs_word1 b \<and>
     adrs_word2 a = adrs_word2 b \<and> adrs_word3 a = adrs_word3 b \<and>
     adrs_word4 a = adrs_word4 b \<and> adrs_word5 a = adrs_word5 b"

section \<open>XMSS\_WOTS\_PublicKey\<close>

record XMSS_WOTS_PublicKey =
  m_wots_params :: XMSS_WOTS_Parameters
  m_key :: wots_keysig_t
  m_public_seed :: bytes

definition key_data :: "XMSS_WOTS_PublicKey \<Rightarrow> wots_keysig_t" where
  "key_data k = m_key k"

definition operator_eq :: "XMSS_WOTS_PublicKey \<Rightarrow> XMSS_WOTS_PublicKey \<Rightarrow> bool" where
  "operator_eq this key \<longleftrightarrow> m_key this = m_key key"

definition operator_neq :: "XMSS_WOTS_PublicKey \<Rightarrow> XMSS_WOTS_PublicKey \<Rightarrow> bool" where
  "operator_neq this key \<longleftrightarrow> \<not> operator_eq this key"

text \<open>
  The loop of \<open>pub_key_from_signature\<close>. \<open>result\<close> starts as a copy of the signature;
  pass \<open>i\<close> sets the chain address (a \<open>uint32_t\<close>), reads \<open>result[i]\<close> and
  \<open>msg_digest[i]\<close> and replaces \<open>result[i]\<close> by the end of its chain. The two reads are
  unchecked: outside the vectors they are \<open>Out_Of_Bounds\<close>, and so is a chain that reads
  past its mask. The digit is a \<open>uint8_t\<close>
  widened to \<open>size_t\<close>, and \<open>w - 1 - digit\<close> is \<open>size_t\<close> arithmetic. The counter stays
  below \<open>len\<close> and cannot wrap.
\<close>

function pub_key_from_signature_loop ::
  "XMSS_WOTS_Parameters \<Rightarrow> 'h XMSS_Hash \<Rightarrow> bytes \<Rightarrow> bytes \<Rightarrow> nat
     \<Rightarrow> wots_keysig_t \<times> XMSS_Address \<Rightarrow> error + wots_keysig_t \<times> XMSS_Address" where
  "pub_key_from_signature_loop P H msg_digest seed i st =
     (if i < unat (wots_len P) then
        (if i < length (fst st) \<and> i < length msg_digest then
           (let adrs1 = set_chain_address (of_nat i) (snd st);
                digit = ucast (msg_digest ! i)
            in case chain P H (fst st ! i) digit (wots_parameter P - 1 - digit) adrs1 seed of
                 Inl e \<Rightarrow> Inl e
               | Inr r \<Rightarrow>
                   pub_key_from_signature_loop P H msg_digest seed (Suc i)
                     ((fst st)[i := fst r], snd r))
         else Inl Out_Of_Bounds)
      else Inr st)"
  by pat_completeness auto
termination
  by (relation "measure (\<lambda>(P, H, msg_digest, seed, i, st). unat (wots_len P) - i)") auto

declare pub_key_from_signature_loop.simps [simp del]

definition msg_digest_of :: "XMSS_WOTS_Parameters \<Rightarrow> bytes \<Rightarrow> bytes" where
  "msg_digest_of P msg = append_checksum P (base_w P msg (wots_len_1 P))"

definition pub_key_from_signature ::
  "XMSS_WOTS_Parameters \<Rightarrow> 'h XMSS_Hash \<Rightarrow> bytes \<Rightarrow> wots_keysig_t \<Rightarrow> XMSS_Address \<Rightarrow> bytes
     \<Rightarrow> error + wots_keysig_t \<times> XMSS_Address" where
  "pub_key_from_signature P H msg sig adrs seed =
     pub_key_from_signature_loop P H (msg_digest_of P msg) seed 0 (sig, adrs)"

text \<open>
  The constructor that builds a public key from a message and its signature: \<open>m_key\<close> is
  the result of \<open>pub_key_from_signature\<close>, \<open>m_public_seed\<close> the seed given.
\<close>

definition public_key_of_signature ::
  "XMSS_WOTS_Parameters \<Rightarrow> 'h XMSS_Hash \<Rightarrow> bytes \<Rightarrow> wots_keysig_t \<Rightarrow> XMSS_Address \<Rightarrow> bytes
     \<Rightarrow> error + XMSS_WOTS_PublicKey \<times> XMSS_Address" where
  "public_key_of_signature P H msg sig adrs public_seed =
     (case pub_key_from_signature P H msg sig adrs public_seed of
        Inl e \<Rightarrow> Inl e
      | Inr r \<Rightarrow> Inr (\<lparr>m_wots_params = P, m_key = fst r, m_public_seed = public_seed\<rparr>, snd r))"

section \<open>The private key\<close>

text \<open>
  \<open>xmss_parameters.hpp\<close> is not among the sources: the two values the signer reads from
  the parameter set are fields.
\<close>

record XMSS_Parameters =
  element_size :: size_t
  tree_height :: size_t

text \<open>
  Modelled from the spec: \<open>xmss_privatekey.hpp\<close> is not among the sources. By section 3
  the private key holds the parameter set, the master seed, the PRF seed, the public
  seed, the root and the monotonic leaf counter.
\<close>

record XMSS_PrivateKey =
  xmss_parameters :: XMSS_Parameters
  key_sk_seed :: bytes
  key_prf :: bytes
  key_public_seed :: bytes
  key_root :: bytes
  unused_leaf_index :: size_t

text \<open>
  Modelled from the spec: \<open>reserve_unused_leaf_index\<close> is a member of the absent private
  key. By sections 4.7, 5 and 7 it returns the next unused leaf index and advances the
  counter, and it fails with \<open>LeafExhausted\<close> when no index is left, which is when the
  count of used leaves is \<open>2^h\<close>; a failure leaves the key as it was.
\<close>

definition reserve_unused_leaf_index ::
  "XMSS_PrivateKey \<Rightarrow> (error + size_t) \<times> XMSS_PrivateKey" where
  "reserve_unused_leaf_index key =
     (if unat (unused_leaf_index key) < 2 ^ unat (tree_height (xmss_parameters key))
      then (Inr (unused_leaf_index key),
            key\<lparr>unused_leaf_index := unused_leaf_index key + 1\<rparr>)
      else (Inl LeafExhausted, key))"

text \<open>
  \<open>tree_hash\<close> and the signing operation of the WOTS+ private key are members of the
  absent private key too; they are parameters. Both take the address by reference, so
  each returns the address it leaves behind.
\<close>

record XMSS_Key_Ops =
  tree_hash :: "XMSS_PrivateKey \<Rightarrow> size_t \<Rightarrow> size_t \<Rightarrow> XMSS_Address \<Rightarrow> bytes \<times> XMSS_Address"
  wots_sign :: "XMSS_PrivateKey \<Rightarrow> bytes \<Rightarrow> XMSS_Address \<Rightarrow> wots_keysig_t \<times> XMSS_Address"

text \<open>
  Modelled from the spec: \<open>XMSS_Tools::concat\<close> is not among the sources. Section 4.1
  defines \<open>toByte(x, k)\<close> as the big-endian \<open>k\<close>-byte representation of \<open>x\<close>;
  \<open>concat target x k\<close> appends it to \<open>target\<close>. The integer is a \<open>size_t\<close>: byte \<open>j\<close>
  of the \<open>k\<close> is the integer shifted right by \<open>8 * (k - 1 - j)\<close> bits.
\<close>

definition toByte :: "size_t \<Rightarrow> nat \<Rightarrow> bytes" where
  "toByte x k = map (\<lambda>j. ucast (drop_bit (8 * (k - 1 - j)) x)) [0 ..< k]"

definition concat_bytes :: "bytes \<Rightarrow> size_t \<Rightarrow> nat \<Rightarrow> bytes" where
  "concat_bytes target x k = target @ toByte x k"

section \<open>XMSS\_Signature\<close>

record TreeSignature =
  m_ots_sig :: wots_keysig_t
  m_auth_path :: wots_keysig_t

text \<open>
  Modelled from the spec: \<open>xmss_signature.hpp\<close> is not among the sources. By sections 3
  and 6 a signature is the triple of leaf index, randomness and tree signature, and its
  serialization is the index in four big-endian bytes, then the randomness, then the
  elements of the WOTS+ signature, then the nodes of the authentication path.
\<close>

record XMSS_Signature =
  sig_leaf_idx :: size_t
  sig_randomness :: bytes
  sig_tree_sig :: TreeSignature

definition signature_bytes :: "XMSS_Signature \<Rightarrow> bytes" where
  "signature_bytes sg = toByte (sig_leaf_idx sg) 4 @ sig_randomness sg @
     concat (m_ots_sig (sig_tree_sig sg)) @ concat (m_auth_path (sig_tree_sig sg))"

section \<open>XMSS\_Signature\_Operation\<close>

text \<open>
  The members of the signer; \<open>m_xmss_params\<close> and \<open>m_hash\<close> are those of the base
  \<open>XMSS_Common_Ops\<close>. Of \<open>m_hash\<close> the state of the incremental message hash is kept.
\<close>

record 'h XMSS_Signature_Operation =
  m_xmss_params :: XMSS_Parameters
  m_hash :: 'h
  m_priv_key :: XMSS_PrivateKey
  m_randomness :: bytes
  m_leaf_idx :: size_t
  m_is_initialized :: bool

definition new_signature_operation :: "'h \<Rightarrow> XMSS_PrivateKey \<Rightarrow> 'h XMSS_Signature_Operation" where
  "new_signature_operation h0 private_key =
     \<lparr>m_xmss_params = xmss_parameters private_key, m_hash = h0, m_priv_key = private_key,
      m_randomness = [], m_leaf_idx = 0, m_is_initialized = False\<rparr>"

text \<open>
  \<open>1 << j\<close> shifts the \<open>int\<close> 1 by a \<open>size_t\<close>. Below 32 the result is the 32-bit
  two's-complement value, widened with its sign where it meets a \<open>size_t\<close>; from 32 on
  the shift is undefined.
\<close>

definition int_shl_one :: "nat \<Rightarrow> error + size_t" where
  "int_shl_one j = (if j < 32 then Inr (scast (push_bit j (1 :: 32 word))) else Inl Undefined_Shift)"

text \<open>
  The loop of \<open>build_auth_path\<close>. The vector has \<open>tree_height\<close> elements, so the write
  to \<open>auth_path[j]\<close> is in range; the counter stays below \<open>tree_height\<close>.
\<close>

function build_auth_path_loop ::
  "XMSS_Key_Ops \<Rightarrow> XMSS_PrivateKey \<Rightarrow> size_t \<Rightarrow> size_t \<Rightarrow> nat
     \<Rightarrow> wots_keysig_t \<times> XMSS_Address \<Rightarrow> error + wots_keysig_t \<times> XMSS_Address" where
  "build_auth_path_loop K priv_key leaf_idx height j st =
     (if j < unat height then
        (case int_shl_one j of
           Inl e \<Rightarrow> Inl e
         | Inr p \<Rightarrow>
             (let k = (leaf_idx div p) XOR 1;
                  r = tree_hash K priv_key (k * p) (of_nat j) (snd st)
              in build_auth_path_loop K priv_key leaf_idx height (Suc j)
                   ((fst st)[j := fst r], snd r)))
      else Inr st)"
  by pat_completeness auto
termination
  by (relation "measure (\<lambda>(K, priv_key, leaf_idx, height, j, st). unat height - j)") auto

declare build_auth_path_loop.simps [simp del]

definition build_auth_path ::
  "XMSS_Key_Ops \<Rightarrow> 'h XMSS_Signature_Operation \<Rightarrow> XMSS_PrivateKey \<Rightarrow> XMSS_Address
     \<Rightarrow> error + wots_keysig_t \<times> XMSS_Address" where
  "build_auth_path K this priv_key adrs =
     build_auth_path_loop K priv_key (m_leaf_idx this) (tree_height (m_xmss_params this)) 0
       (replicate (unat (tree_height (m_xmss_params this))) [],
        set_type Hash_Tree_Address adrs)"

definition generate_tree_signature ::
  "XMSS_Key_Ops \<Rightarrow> 'h XMSS_Signature_Operation \<Rightarrow> bytes \<Rightarrow> XMSS_PrivateKey \<Rightarrow> XMSS_Address
     \<Rightarrow> error + TreeSignature \<times> XMSS_Address" where
  "generate_tree_signature K this msg xmss_priv_key adrs =
     (case build_auth_path K this xmss_priv_key adrs of
        Inl e \<Rightarrow> Inl e
      | Inr r \<Rightarrow>
          (let adrs1 = set_ots_address (ucast (m_leaf_idx this))
                         (set_type OTS_Hash_Address (snd r));
               s = wots_sign K xmss_priv_key msg adrs1
           in Inr (\<lparr>m_ots_sig = fst s, m_auth_path = fst r\<rparr>, snd s)))"

text \<open>Algorithm 12, the private overload \<open>sign(msg_hash, xmss_priv_key)\<close>.\<close>

definition sign_msg_hash ::
  "XMSS_Key_Ops \<Rightarrow> 'h XMSS_Signature_Operation \<Rightarrow> bytes \<Rightarrow> XMSS_PrivateKey
     \<Rightarrow> error + XMSS_Signature" where
  "sign_msg_hash K this msg_hash xmss_priv_key =
     (case generate_tree_signature K this msg_hash xmss_priv_key new_address of
        Inl e \<Rightarrow> Inl e
      | Inr r \<Rightarrow> Inr \<lparr>sig_leaf_idx = m_leaf_idx this, sig_randomness = m_randomness this,
                       sig_tree_sig = fst r\<rparr>)"

text \<open>
  \<open>initialize\<close>. An exception of \<open>reserve_unused_leaf_index\<close> leaves the function at
  the call, before any member but the private key has been touched.
\<close>

definition initialize ::
  "'h XMSS_Hash \<Rightarrow> 'h XMSS_Signature_Operation
     \<Rightarrow> (error + unit) \<times> 'h XMSS_Signature_Operation" where
  "initialize H this =
     (if m_is_initialized this then (Inr (), this)
      else
        (case reserve_unused_leaf_index (m_priv_key this) of
           (Inl e, key') \<Rightarrow> (Inl e, this\<lparr>m_priv_key := key'\<rparr>)
         | (Inr idx, key') \<Rightarrow>
             (let s1 = this\<lparr>m_priv_key := key', m_leaf_idx := idx\<rparr>;
                  index_bytes = concat_bytes [] (m_leaf_idx s1) 32;
                  s2 = s1\<lparr>m_randomness := hash_prf H (key_prf (m_priv_key s1)) index_bytes\<rparr>;
                  index_bytes2 = concat_bytes [] (m_leaf_idx s2)
                                   (unat (element_size (xmss_parameters (m_priv_key s2))));
                  s3 = s2\<lparr>m_hash := h_msg_init H (m_randomness s2) (key_root (m_priv_key s2))
                                       index_bytes2 (m_hash s2)\<rparr>
              in (Inr (), s3\<lparr>m_is_initialized := True\<rparr>))))"

definition update ::
  "'h XMSS_Hash \<Rightarrow> bytes \<Rightarrow> 'h XMSS_Signature_Operation
     \<Rightarrow> (error + unit) \<times> 'h XMSS_Signature_Operation" where
  "update H msg this =
     (case initialize H this of
        (Inl e, s1) \<Rightarrow> (Inl e, s1)
      | (Inr u, s1) \<Rightarrow> (Inr (), s1\<lparr>m_hash := h_msg_update H msg (m_hash s1)\<rparr>))"

text \<open>
  The public \<open>sign(RandomNumberGenerator &)\<close>. The generator is passed by reference and
  the parameter has no name; the generator comes back as the third component.
\<close>

definition sign ::
  "'h XMSS_Hash \<Rightarrow> XMSS_Key_Ops \<Rightarrow> 'r \<Rightarrow> 'h XMSS_Signature_Operation
     \<Rightarrow> (error + bytes) \<times> 'h XMSS_Signature_Operation \<times> 'r" where
  "sign H K rng this =
     (case initialize H this of
        (Inl e, s1) \<Rightarrow> (Inl e, s1, rng)
      | (Inr u, s1) \<Rightarrow>
          (let fin = h_msg_final H (m_hash s1);
               s2 = s1\<lparr>m_hash := snd fin\<rparr>
           in (case sign_msg_hash K s2 (fst fin) (m_priv_key s2) of
                 Inl e \<Rightarrow> (Inl e, s2, rng)
               | Inr sg \<Rightarrow> (Inr (signature_bytes sg), s2\<lparr>m_is_initialized := False\<rparr>, rng))))"

section \<open>A small instance\<close>

text \<open>
  An instance of the parameters on which the definitions above can be run: element size
  2, Winternitz parameter 16, tree height 2. \<open>sample_digest\<close> stands in for the hash
  primitive and has no cryptographic strength; the keyed functions over it are laid out
  as in section 4.1 of the specification, with the domain separators 0, 2 and 3.
\<close>

definition sample_digest :: "bytes \<Rightarrow> bytes" where
  "sample_digest xs = [foldl (\<lambda>a b. a + b) 7 xs, foldl (\<lambda>a b. 3 * a + b) 1 xs]"

definition sample_hash :: "bytes XMSS_Hash" where
  "sample_hash =
     \<lparr>hash_prf = (\<lambda>key data. sample_digest (toByte 3 2 @ key @ data)),
      hash_f = (\<lambda>key data. sample_digest (toByte 0 2 @ key @ data)),
      h_msg_init = (\<lambda>r root index_bytes h. toByte 2 2 @ r @ root @ index_bytes),
      h_msg_update = (\<lambda>msg h. h @ msg),
      h_msg_final = (\<lambda>h. (sample_digest h, []))\<rparr>"

text \<open>
  Modelled from the spec: the digit functions of the absent \<open>XMSS_WOTS_Parameters\<close>, for
  \<open>w = 16\<close> and \<open>len_2 = 3\<close> as in scenario S3 of section 8. \<open>base_w\<close> reads the digits
  from the most significant side, a byte giving two; the checksum is the sum of
  \<open>w - 1 - digit\<close>, shifted left by 4 bits, written to 2 bytes and unpacked to 3 digits.
\<close>

definition sample_base_w :: "bytes \<Rightarrow> size_t \<Rightarrow> bytes" where
  "sample_base_w X out_len = take (unat out_len) (concat (map (\<lambda>b. [drop_bit 4 b, b AND 15]) X))"

definition sample_append_checksum :: "bytes \<Rightarrow> bytes" where
  "sample_append_checksum ds =
     ds @ sample_base_w (toByte (push_bit 4 (foldl (\<lambda>csum d. csum + (16 - 1 - ucast d)) 0 ds)) 2) 3"

definition sample_wots_params :: XMSS_WOTS_Parameters where
  "sample_wots_params =
     \<lparr>wots_parameter = 16, wots_len = 7, wots_len_1 = 4,
      base_w = sample_base_w, append_checksum = sample_append_checksum\<rparr>"

definition sample_key_ops :: XMSS_Key_Ops where
  "sample_key_ops =
     \<lparr>tree_hash = (\<lambda>key start_idx target_height adrs.
        (sample_digest (key_sk_seed key @ toByte start_idx 4 @ toByte target_height 4 @
           adrs_bytes adrs),
         adrs\<lparr>adrs_word5 := ucast target_height, adrs_word6 := ucast start_idx\<rparr>)),
      wots_sign = (\<lambda>key msg adrs.
        (map (\<lambda>d. sample_digest (key_sk_seed key @ [d] @ adrs_bytes adrs))
           (msg_digest_of sample_wots_params msg),
         adrs))\<rparr>"

definition sample_private_key :: XMSS_PrivateKey where
  "sample_private_key =
     \<lparr>xmss_parameters = \<lparr>element_size = 2, tree_height = 2\<rparr>,
      key_sk_seed = [0, 0], key_prf = [1, 1], key_public_seed = [2, 2], key_root = [9, 8],
      unused_leaf_index = 0\<rparr>"

definition sample_signer :: "bytes XMSS_Signature_Operation" where
  "sample_signer = new_signature_operation [] sample_private_key"

text \<open>
  The inputs on which the instance is run: a two-byte message and a signature of seven
  elements.
\<close>

definition sample_msg :: bytes where
  "sample_msg = [0xde, 0xf4]"

definition sample_sig :: wots_keysig_t where
  "sample_sig = [[1, 2], [3, 4], [5, 6], [7, 8], [9, 10], [11, 12], [13, 14]]"

text \<open>The same signature with a third byte in element 3.\<close>

definition sample_long_sig :: wots_keysig_t where
  "sample_long_sig = [[1, 2], [3, 4], [5, 6], [7, 8, 9], [9, 10], [11, 12], [13, 14]]"

text \<open>
  The same operations with a \<open>tree_hash\<close> that hands the address back as it got it.
\<close>

definition sample_pure_key_ops :: XMSS_Key_Ops where
  "sample_pure_key_ops =
     sample_key_ops\<lparr>tree_hash := (\<lambda>key start_idx target_height adrs.
        (fst (tree_hash sample_key_ops key start_idx target_height adrs), adrs))\<rparr>"

text \<open>
  Three states of the signer: after \<open>update\<close> with the one-byte message \<open>0x61\<close>, with
  leaf index 2 cached, and over a key whose four leaves are used up.
\<close>

definition sample_updated :: "bytes XMSS_Signature_Operation" where
  "sample_updated = snd (update sample_hash [0x61] sample_signer)"

definition sample_signer_at_2 :: "bytes XMSS_Signature_Operation" where
  "sample_signer_at_2 = sample_signer\<lparr>m_leaf_idx := 2\<rparr>"

definition sample_exhausted :: "bytes XMSS_Signature_Operation" where
  "sample_exhausted =
     new_signature_operation [] (sample_private_key\<lparr>unused_leaf_index := 4\<rparr>)"

section \<open>Auxiliary notions for the statements\<close>

text \<open>
  The address that pass \<open>j\<close> of the loop of \<open>build_auth_path\<close> hands to \<open>tree_hash\<close>:
  the address at the head of the loop, as the earlier calls have left it.
\<close>

fun auth_path_adrs ::
  "XMSS_Key_Ops \<Rightarrow> XMSS_PrivateKey \<Rightarrow> size_t \<Rightarrow> XMSS_Address \<Rightarrow> nat \<Rightarrow> XMSS_Address" where
  "auth_path_adrs K priv_key leaf_idx adrs 0 = adrs"
| "auth_path_adrs K priv_key leaf_idx adrs (Suc j) =
     snd (tree_hash K priv_key (((leaf_idx div 2 ^ j) XOR 1) * 2 ^ j) (of_nat j)
            (auth_path_adrs K priv_key leaf_idx adrs j))"

text \<open>
  The end of the chain that pass \<open>j\<close> of \<open>pub_key_from_signature\<close> computes from an
  element \<open>x\<close>, with the address the caller handed in.
\<close>

definition chain_of_digit ::
  "XMSS_WOTS_Parameters \<Rightarrow> 'h XMSS_Hash \<Rightarrow> bytes \<Rightarrow> bytes \<Rightarrow> XMSS_Address \<Rightarrow> nat \<Rightarrow> bytes
     \<Rightarrow> error + bytes" where
  "chain_of_digit P H msg_digest seed adrs j x =
     chain_result (chain P H x (ucast (msg_digest ! j))
       (wots_parameter P - 1 - ucast (msg_digest ! j)) (set_chain_address (of_nat j) adrs) seed)"

section \<open>The loop of the chaining function\<close>

lemma filter_less_upt: "filter (\<lambda>j. j < (w::nat)) [a ..< b] = [a ..< min b w]"
proof (induction b)
  case 0
  then show ?case by simp
next
  case (Suc b)
  then show ?case
    by (cases "b < w") (auto simp: min_def)
qed

lemma chain_loop_run_steps:
  "chain_loop H seed bound w i st = run_steps H seed [unat i ..< min (unat bound) (unat w)] st"
proof (induction H seed bound w i st rule: chain_loop.induct)
  case (1 H seed bound w i st)
  show ?case
  proof (cases "i < bound \<and> i < w")
    case True
    then have lt: "unat i < unat bound" "unat i < unat w"
      by (simp_all add: word_less_nat_alt)
    have "unat w < 2 ^ 64"
      using unsigned_less [of w] by simp
    with lt have suc: "unat (i + 1) = Suc (unat i)"
      by (simp add: unat_word_ariths)
    from lt have upt: "[unat i ..< min (unat bound) (unat w)]
        = unat i # [Suc (unat i) ..< min (unat bound) (unat w)]"
      by (simp add: upt_conv_Cons)
    have unfold: "chain_loop H seed bound w i st
        = (case chain_step H seed i st of
             Inl e \<Rightarrow> Inl e
           | Inr st' \<Rightarrow> chain_loop H seed bound w (i + 1) st')"
      by (subst chain_loop.simps) (rule if_P [OF True])
    show ?thesis
    proof (cases "chain_step H seed i st")
      case (Inl e)
      then show ?thesis
        by (simp add: unfold upt)
    next
      case (Inr st')
      with "1.IH" [OF True Inr] suc show ?thesis
        by (simp add: unfold upt)
    qed
  next
    case False
    then have "min (unat bound) (unat w) \<le> unat i"
      by (auto simp: word_less_nat_alt min_def)
    then have empty: "[unat i ..< min (unat bound) (unat w)] = []"
      by simp
    have "chain_loop H seed bound w i st = Inr st"
      by (subst chain_loop.simps) (rule if_not_P [OF False])
    then show ?thesis
      by (simp only: empty run_steps.simps)
  qed
qed

lemma chain_run_steps:
  "chain P H x start_idx steps adrs seed
     = run_steps H seed [unat start_idx ..< min (unat (start_idx + steps)) (unat (wots_parameter P))]
         (x, adrs)"
  by (simp add: chain_def chain_loop_run_steps)

text \<open>
  C2, as the code has it. \<open>chain(x, start, steps, ADRS, SEED)\<close> performs the
  mask-and-F step exactly at the indices \<open>i\<close> with \<open>i < w\<close> of the range from \<open>start\<close>
  up to the \<open>size_t\<close> sum \<open>start + steps\<close> of the loop condition, which wraps at
  \<open>2^64\<close>, in increasing order; a step whose mask is shorter than the element ends the
  run with the out-of-range read. When the two numbers add up to less than \<open>2^64\<close> the
  range is \<open>[start, start + steps)\<close> of the numbers themselves: a sum above \<open>w - 1\<close>
  has the steps run up to and including index \<open>w - 1\<close>, where the loop stops, and with a
  sum of at most \<open>w - 1\<close> every step of the range runs.
\<close>

theorem chain_steps_clamped_by_w:
  "chain P H x start_idx steps adrs seed
     = run_steps H seed (filter (\<lambda>i. i < unat (wots_parameter P))
         [unat start_idx ..< unat (start_idx + steps)]) (x, adrs)
   \<and> (unat start_idx + unat steps < 2 ^ 64 \<longrightarrow>
        chain P H x start_idx steps adrs seed
          = run_steps H seed (filter (\<lambda>i. i < unat (wots_parameter P))
              [unat start_idx ..< unat start_idx + unat steps]) (x, adrs)
        \<and> (unat (wots_parameter P) - 1 < unat start_idx + unat steps \<longrightarrow>
             chain P H x start_idx steps adrs seed
               = run_steps H seed [unat start_idx ..< unat (wots_parameter P)] (x, adrs))
        \<and> (unat start_idx + unat steps \<le> unat (wots_parameter P) - 1 \<longrightarrow>
             chain P H x start_idx steps adrs seed
               = run_steps H seed [unat start_idx ..< unat start_idx + unat steps] (x, adrs)))"
proof (intro conjI impI)
  show "chain P H x start_idx steps adrs seed
     = run_steps H seed (filter (\<lambda>i. i < unat (wots_parameter P))
         [unat start_idx ..< unat (start_idx + steps)]) (x, adrs)"
    by (simp add: chain_run_steps filter_less_upt)
next
  assume "unat start_idx + unat steps < 2 ^ 64"
  then have sum: "unat (start_idx + steps) = unat start_idx + unat steps"
    by (simp add: unat_word_ariths)
  then show "chain P H x start_idx steps adrs seed
      = run_steps H seed (filter (\<lambda>i. i < unat (wots_parameter P))
          [unat start_idx ..< unat start_idx + unat steps]) (x, adrs)"
    by (simp add: chain_run_steps filter_less_upt)
  {
    assume "unat (wots_parameter P) - 1 < unat start_idx + unat steps"
    then have "min (unat start_idx + unat steps) (unat (wots_parameter P))
        = unat (wots_parameter P)"
      by arith
    then show "chain P H x start_idx steps adrs seed
        = run_steps H seed [unat start_idx ..< unat (wots_parameter P)] (x, adrs)"
      by (simp add: chain_run_steps sum)
  }
  {
    assume le: "unat start_idx + unat steps \<le> unat (wots_parameter P) - 1"
    show "chain P H x start_idx steps adrs seed
        = run_steps H seed [unat start_idx ..< unat start_idx + unat steps] (x, adrs)"
    proof (cases "unat start_idx + unat steps = 0")
      case True
      then show ?thesis by (simp add: chain_run_steps sum)
    next
      case False
      with le have "min (unat start_idx + unat steps) (unat (wots_parameter P))
          = unat start_idx + unat steps"
        by arith
      then show ?thesis by (simp add: chain_run_steps sum)
    qed
  }
qed

section \<open>The chain context of an address\<close>

lemma same_chain_context_refl: "same_chain_context a a"
  by (simp add: same_chain_context_def)

lemma same_chain_context_sym: "same_chain_context a b \<Longrightarrow> same_chain_context b a"
  by (simp add: same_chain_context_def)

lemma same_chain_context_trans:
  "same_chain_context a b \<Longrightarrow> same_chain_context b c \<Longrightarrow> same_chain_context a c"
  by (simp add: same_chain_context_def)

lemma hash_and_mask_overwritten:
  assumes "same_chain_context a b"
  shows "set_key_mask_mode m (set_hash_address v a) = set_key_mask_mode m (set_hash_address v b)"
  using assms
  by (cases a; cases b)
    (simp add: same_chain_context_def set_key_mask_mode_def set_hash_address_def)

lemma chain_step_pair:
  "chain_step H seed i (x, a) =
     (case xor_buf x
             (hash_prf H seed (adrs_bytes (set_key_mask_mode Mask_Mode (set_hash_address (ucast i) a))))
             (length x) of
        Inl e \<Rightarrow> Inl e
      | Inr x1 \<Rightarrow>
          Inr (hash_f H
                 (hash_prf H seed (adrs_bytes (set_key_mask_mode Key_Mode (set_hash_address (ucast i) a))))
                 x1,
               set_key_mask_mode Key_Mode (set_hash_address (ucast i) a)))"
  by (simp add: chain_step_def Let_def set_key_mask_mode_def split: sum.splits)

lemma chain_step_same_context:
  assumes "same_chain_context a b"
  shows "chain_step H seed i (x, a) = chain_step H seed i (x, b)"
  unfolding chain_step_pair
  by (simp only: hash_and_mask_overwritten [OF assms])

lemma chain_step_keeps_context:
  assumes "chain_step H seed i st = Inr st'"
  shows "same_chain_context (snd st') (snd st)"
  using assms
  by (cases st)
    (auto simp: chain_step_pair same_chain_context_def set_key_mask_mode_def
      set_hash_address_def split: sum.splits)

lemma run_steps_append:
  "run_steps H seed (js @ ks) st =
     (case run_steps H seed js st of Inl e \<Rightarrow> Inl e | Inr st' \<Rightarrow> run_steps H seed ks st')"
  by (induction js arbitrary: st) (simp_all split: sum.splits)

lemma run_steps_keeps_context:
  assumes "run_steps H seed js st = Inr st'"
  shows "same_chain_context (snd st') (snd st)"
  using assms
proof (induction js arbitrary: st)
  case Nil
  then show ?case by (simp add: same_chain_context_refl)
next
  case (Cons j js)
  then obtain st1 where one: "chain_step H seed (of_nat j) st = Inr st1"
    and rest: "run_steps H seed js st1 = Inr st'"
    by (auto split: sum.splits)
  from Cons.IH [OF rest] chain_step_keeps_context [OF one] show ?case
    by (rule same_chain_context_trans)
qed

lemma run_steps_same_context:
  assumes "same_chain_context a b"
  shows "chain_result (run_steps H seed js (x, a)) = chain_result (run_steps H seed js (x, b))"
proof (cases js)
  case Nil
  then show ?thesis by (simp add: chain_result_def)
next
  case (Cons j js')
  then show ?thesis
    by (simp add: chain_step_same_context [OF assms])
qed

lemma chain_same_context:
  assumes "same_chain_context a b"
  shows "chain_result (chain P H x start_idx steps a seed)
     = chain_result (chain P H x start_idx steps b seed)"
  unfolding chain_run_steps by (rule run_steps_same_context [OF assms])

lemma chain_keeps_context:
  assumes "chain P H x start_idx steps adrs seed = Inr r"
  shows "same_chain_context (snd r) adrs"
  using run_steps_keeps_context [of H seed _ "(x, adrs)" r] assms
  by (simp add: chain_run_steps)

lemma chain_step_in_range:
  assumes "hash_width H n" and "length x \<le> n"
  shows "chain_step H seed i (x, a) =
     Inr (hash_f H
            (hash_prf H seed (adrs_bytes (set_key_mask_mode Key_Mode (set_hash_address (ucast i) a))))
            (map2 (XOR) x
               (take (length x) (hash_prf H seed
                  (adrs_bytes (set_key_mask_mode Mask_Mode (set_hash_address (ucast i) a)))))),
          set_key_mask_mode Key_Mode (set_hash_address (ucast i) a))"
  using assms by (simp add: chain_step_pair xor_buf_def hash_width_def)

lemma chain_step_out_of_range:
  assumes "hash_width H n" and "n < length x"
  shows "chain_step H seed i (x, a) = Inl Out_Of_Bounds"
  using assms by (simp add: chain_step_pair xor_buf_def hash_width_def)

lemma chain_step_error:
  "chain_step H seed i st = Inl e \<Longrightarrow> e = Out_Of_Bounds"
  by (cases st) (auto simp: chain_step_pair xor_buf_def split: sum.splits if_splits)

lemma run_steps_error:
  "run_steps H seed js st = Inl e \<Longrightarrow> e = Out_Of_Bounds"
  by (induction js arbitrary: st) (auto split: sum.splits dest: chain_step_error)

lemma chain_error: "chain P H x start_idx steps adrs seed = Inl e \<Longrightarrow> e = Out_Of_Bounds"
  unfolding chain_run_steps by (rule run_steps_error)

lemma run_steps_total:
  assumes "hash_width H n" and "length (fst st) \<le> n"
  shows "\<exists>st'. run_steps H seed js st = Inr st' \<and> length (fst st') \<le> n"
  using assms(2)
proof (induction js arbitrary: st)
  case Nil
  then show ?case by simp
next
  case (Cons j js)
  obtain x a where st: "st = (x, a)"
    by (cases st)
  with Cons.prems have "length x \<le> n"
    by simp
  from chain_step_in_range [OF assms(1) this, of seed "of_nat j" a]
  obtain st1 where one: "chain_step H seed (of_nat j) st = Inr st1"
    and len: "length (fst st1) = n"
    using assms(1) by (auto simp: st hash_width_def)
  from len have "length (fst st1) \<le> n"
    by simp
  from Cons.IH [OF this] one show ?case
    by simp
qed

lemma chain_total:
  assumes "hash_width H n" and "length x \<le> n"
  shows "\<exists>r. chain P H x start_idx steps adrs seed = Inr r"
  using run_steps_total [OF assms(1), of "(x, adrs)" seed] assms(2)
  unfolding chain_run_steps by fastforce

lemma chain_split:
  assumes "a \<le> b"
  shows "chain P H x 0 b adrs seed
     = (case chain P H x 0 a adrs seed of
          Inl e \<Rightarrow> Inl e
        | Inr r \<Rightarrow> run_steps H seed [unat a ..< min (unat b) (unat (wots_parameter P))] r)"
proof -
  let ?w = "unat (wots_parameter P)"
  from assms have ab: "unat a \<le> unat b"
    by (simp add: word_le_nat_alt)
  show ?thesis
  proof (cases "unat a \<le> ?w")
    case True
    with ab have "unat a \<le> min (unat b) ?w"
      by simp
    then obtain k where "min (unat b) ?w = unat a + k"
      using le_Suc_ex by blast
    then have "[0 ..< min (unat b) ?w] = [0 ..< unat a] @ [unat a ..< min (unat b) ?w]"
      using upt_add_eq_append [of 0 "unat a" k] by simp
    moreover from True have "min (unat a) ?w = unat a"
      by simp
    ultimately show ?thesis
      by (simp add: chain_run_steps run_steps_append)
  next
    case False
    with ab have "min (unat a) ?w = ?w" "min (unat b) ?w = ?w" "[unat a ..< ?w] = []"
      by simp_all
    then show ?thesis
      by (simp add: chain_run_steps split: sum.splits)
  qed
qed

section \<open>Composition of chains\<close>

text \<open>
  C4. For step counts \<open>a \<le> b \<le> w - 1\<close>, running the chain from index 0 for \<open>b\<close> steps
  is running it for \<open>a\<close> steps and then from index \<open>a\<close> for \<open>b - a\<close> steps on what the
  first call returned; within the bound each of the \<open>b\<close> steps runs. The first call
  changes the address in the hash address and the key-and-mask word only, so the second
  call may take the address the first call left or any address with the same OTS and
  chain context, the address of the first call among them: its result is the same. For
  an \<open>x\<close> of at most \<open>n\<close> bytes, \<open>n\<close> the output size of PRF and F, no mask is read out
  of range and both calls return.
\<close>

theorem chain_composition:
  assumes "a \<le> b" and "unat b \<le> unat (wots_parameter P) - 1"
  shows "chain P H x 0 b adrs seed
           = (case chain P H x 0 a adrs seed of
                Inl e \<Rightarrow> Inl e
              | Inr r \<Rightarrow> chain P H (fst r) a (b - a) (snd r) seed)
       \<and> (\<forall>r. chain P H x 0 a adrs seed = Inr r \<longrightarrow>
            same_chain_context (snd r) adrs
            \<and> (\<forall>adrs'. same_chain_context adrs' adrs \<longrightarrow>
                 chain_result (chain P H (fst r) a (b - a) adrs' seed)
                   = chain_result (chain P H x 0 b adrs seed)))
       \<and> chain P H x 0 b adrs seed = run_steps H seed [0 ..< unat b] (x, adrs)
       \<and> (hash_width H n \<and> length x \<le> n \<longrightarrow>
            (\<exists>r. chain P H x 0 a adrs seed = Inr r) \<and> (\<exists>r. chain P H x 0 b adrs seed = Inr r))"
proof (intro conjI allI impI)
  have second: "chain P H y a (b - a) adrs' seed
      = run_steps H seed [unat a ..< min (unat b) (unat (wots_parameter P))] (y, adrs')"
    for y adrs'
    by (simp add: chain_run_steps)
  show whole: "chain P H x 0 b adrs seed
      = (case chain P H x 0 a adrs seed of
           Inl e \<Rightarrow> Inl e
         | Inr r \<Rightarrow> chain P H (fst r) a (b - a) (snd r) seed)"
    by (simp add: second chain_split [OF assms(1)] split: sum.splits)
  from assms(2) have "min (unat b) (unat (wots_parameter P)) = unat b"
    by arith
  then show "chain P H x 0 b adrs seed = run_steps H seed [0 ..< unat b] (x, adrs)"
    by (simp add: chain_run_steps)
  {
    fix r
    assume first: "chain P H x 0 a adrs seed = Inr r"
    then show ctx: "same_chain_context (snd r) adrs"
      by (rule chain_keeps_context)
    fix adrs'
    assume "same_chain_context adrs' adrs"
    then have "same_chain_context adrs' (snd r)"
      using ctx same_chain_context_sym same_chain_context_trans by blast
    then have "chain_result (chain P H (fst r) a (b - a) adrs' seed)
        = chain_result (chain P H (fst r) a (b - a) (snd r) seed)"
      by (rule chain_same_context)
    with whole first show "chain_result (chain P H (fst r) a (b - a) adrs' seed)
        = chain_result (chain P H x 0 b adrs seed)"
      by simp
  }
  {
    assume "hash_width H n \<and> length x \<le> n"
    then have wd: "hash_width H n" and len: "length x \<le> n"
      by simp_all
    show "\<exists>r. chain P H x 0 a adrs seed = Inr r"
      by (rule chain_total [OF wd len])
    show "\<exists>r. chain P H x 0 b adrs seed = Inr r"
      by (rule chain_total [OF wd len])
  }
qed

section \<open>Evaluation on the instance\<close>

text \<open>
  The hash functions of the instance return two bytes, so a step on an element of at most
  two bytes reads its mask in range. These are the equations by which the definitions are
  run on the instance.
\<close>

lemma sample_digest_length: "length (sample_digest xs) = 2"
  by (simp add: sample_digest_def)

lemma sample_hash_width: "hash_width sample_hash 2"
  by (simp add: hash_width_def sample_hash_def sample_digest_length)

lemmas chain_step_sample = chain_step_in_range [OF sample_hash_width]

lemmas chain_step_sample_long = chain_step_out_of_range [OF sample_hash_width]

lemmas address_eval = adrs_bytes_def be32_def new_address_def set_key_mask_mode_def
  set_hash_address_def set_chain_address_def set_type_def set_ots_address_def

lemma sample_hash_prf:
  "hash_prf sample_hash key data = sample_digest (toByte 3 2 @ key @ data)"
  by (simp add: sample_hash_def)

lemma sample_hash_f:
  "hash_f sample_hash key data = sample_digest (toByte 0 2 @ key @ data)"
  by (simp add: sample_hash_def)

lemmas sample_hash_eval = sample_hash_def sample_digest_def toByte_def upt_conv_Cons

lemmas chain_eval = chain_run_steps chain_step_sample chain_step_sample_long
  sample_hash_prf sample_hash_f sample_digest_def toByte_def upt_conv_Cons

lemmas sample_wots_eval = sample_wots_params_def sample_base_w_def sample_append_checksum_def
  msg_digest_of_def

lemma sample_msg_digest:
  "append_checksum sample_wots_params (base_w sample_wots_params sample_msg
     (wots_len_1 sample_wots_params)) = [13, 14, 15, 4, 0, 0, 14]"
  by (simp add: sample_wots_eval sample_hash_eval sample_msg_def)

text \<open>
  The chain on the instance, with \<open>w = 16\<close>: from index 13 for 5 steps it runs the
  steps 13, 14 and 15; from index 13 for 2 steps it runs the steps 13 and 14.
\<close>

theorem chain_steps_clamped_by_w_witness:
  "unat (13 :: size_t) + unat (5 :: size_t) < 2 ^ 64
   \<and> unat (wots_parameter sample_wots_params) - 1 < unat (13 :: size_t) + unat (5 :: size_t)
   \<and> chain sample_wots_params sample_hash [5, 6] 13 5 new_address [2, 2]
       = run_steps sample_hash [2, 2] [13, 14, 15] ([5, 6], new_address)
   \<and> chain sample_wots_params sample_hash [5, 6] 13 5 new_address [2, 2]
       = Inr ([119, 125], new_address\<lparr>adrs_word6 := 15\<rparr>)
   \<and> unat (13 :: size_t) + unat (2 :: size_t) < 2 ^ 64
   \<and> unat (13 :: size_t) + unat (2 :: size_t) \<le> unat (wots_parameter sample_wots_params) - 1
   \<and> chain sample_wots_params sample_hash [5, 6] 13 2 new_address [2, 2]
       = run_steps sample_hash [2, 2] [13, 14] ([5, 6], new_address)
   \<and> chain sample_wots_params sample_hash [5, 6] 13 2 new_address [2, 2]
       = Inr ([203, 127], new_address\<lparr>adrs_word6 := 14\<rparr>)"
proof -
  have a1: "unat (13 :: size_t) + unat (5 :: size_t) < 2 ^ 64"
    by simp
  have a2: "unat (wots_parameter sample_wots_params) - 1 < unat (13 :: size_t) + unat (5 :: size_t)"
    by (simp add: sample_wots_params_def)
  have b1: "unat (13 :: size_t) + unat (2 :: size_t) < 2 ^ 64"
    by simp
  have b2: "unat (13 :: size_t) + unat (2 :: size_t) \<le> unat (wots_parameter sample_wots_params) - 1"
    by (simp add: sample_wots_params_def)
  note long = chain_steps_clamped_by_w
    [of sample_wots_params sample_hash "[5, 6]" 13 5 new_address "[2, 2]"]
  note short = chain_steps_clamped_by_w
    [of sample_wots_params sample_hash "[5, 6]" 13 2 new_address "[2, 2]"]
  have r1: "[unat (13 :: size_t) ..< unat (wots_parameter sample_wots_params)] = [13, 14, 15]"
    by (simp add: sample_wots_params_def upt_conv_Cons)
  have r2: "[unat (13 :: size_t) ..< unat (13 :: size_t) + unat (2 :: size_t)] = [13, 14]"
    by (simp add: upt_conv_Cons)
  from long a1 a2 have c1: "chain sample_wots_params sample_hash [5, 6] 13 5 new_address [2, 2]
      = run_steps sample_hash [2, 2] [13, 14, 15] ([5, 6], new_address)"
    unfolding r1 by blast
  from short b1 b2 have c2: "chain sample_wots_params sample_hash [5, 6] 13 2 new_address [2, 2]
      = run_steps sample_hash [2, 2] [13, 14] ([5, 6], new_address)"
    unfolding r2 by blast
  have v1: "chain sample_wots_params sample_hash [5, 6] 13 5 new_address [2, 2]
      = Inr ([119, 125], new_address\<lparr>adrs_word6 := 15\<rparr>)"
    by (simp add: chain_eval address_eval sample_wots_params_def cong: sum.case_cong_weak)
  have v2: "chain sample_wots_params sample_hash [5, 6] 13 2 new_address [2, 2]
      = Inr ([203, 127], new_address\<lparr>adrs_word6 := 14\<rparr>)"
    by (simp add: chain_eval address_eval sample_wots_params_def cong: sum.case_cong_weak)
  show ?thesis
    by (intro conjI) (fact a1 a2 c1 v1 b1 b2 c2 v2)+
qed

text \<open>
  C2 as stated fails: it takes the range \<open>[start, start + steps)\<close> of the numbers, where
  the loop condition adds in \<open>size_t\<close>. On the instance, from index 5 for \<open>2^64 - 1\<close>
  steps, the sum wraps to 4 and no step runs: the element comes back as it went in. The
  steps of the stated range below \<open>w = 16\<close>, the indices 5 to 15, give another element.
\<close>

theorem chain_steps_wrapped_sum_counterexample:
  "chain sample_wots_params sample_hash [5, 6] 5 18446744073709551615 new_address [2, 2]
     = Inr ([5, 6], new_address)
   \<and> run_steps sample_hash [2, 2]
        (filter (\<lambda>i. i < unat (wots_parameter sample_wots_params))
           [unat (5 :: size_t) ..< unat (5 :: size_t) + unat (18446744073709551615 :: size_t)])
        ([5, 6], new_address)
     = Inr ([253, 167], new_address\<lparr>adrs_word6 := 15\<rparr>)"
proof
  show "chain sample_wots_params sample_hash [5, 6] 5 18446744073709551615 new_address [2, 2]
      = Inr ([5, 6], new_address)"
    by (simp add: chain_eval address_eval sample_wots_params_def cong: sum.case_cong_weak)
  have indices: "filter (\<lambda>i. i < unat (wots_parameter sample_wots_params))
      [unat (5 :: size_t) ..< unat (5 :: size_t) + unat (18446744073709551615 :: size_t)]
    = [5, 6, 7, 8, 9, 10, 11, 12, 13, 14, 15]"
    unfolding filter_less_upt by (simp add: sample_wots_params_def upt_conv_Cons)
  show "run_steps sample_hash [2, 2]
        (filter (\<lambda>i. i < unat (wots_parameter sample_wots_params))
           [unat (5 :: size_t) ..< unat (5 :: size_t) + unat (18446744073709551615 :: size_t)])
        ([5, 6], new_address)
      = Inr ([253, 167], new_address\<lparr>adrs_word6 := 15\<rparr>)"
    unfolding indices
    by (simp add: chain_eval address_eval cong: sum.case_cong_weak)
qed

text \<open>
  Chain composition on the instance: 3 steps and then 2 steps from index 3 are the 5
  steps from index 0.
\<close>

theorem chain_composition_witness:
  "(3 :: size_t) \<le> 5
   \<and> unat (5 :: size_t) \<le> unat (wots_parameter sample_wots_params) - 1
   \<and> hash_width sample_hash 2
   \<and> length [5, 6 :: byte] \<le> 2
   \<and> chain sample_wots_params sample_hash [5, 6] 0 3 new_address [2, 2]
       = Inr ([55, 213], new_address\<lparr>adrs_word6 := 2\<rparr>)
   \<and> chain sample_wots_params sample_hash [5, 6] 0 5 new_address [2, 2]
       = chain sample_wots_params sample_hash [55, 213] 3 (5 - 3)
           (new_address\<lparr>adrs_word6 := 2\<rparr>) [2, 2]
   \<and> same_chain_context (new_address\<lparr>adrs_word6 := 2\<rparr>) new_address
   \<and> same_chain_context new_address new_address
   \<and> chain_result (chain sample_wots_params sample_hash [55, 213] 3 (5 - 3) new_address [2, 2])
       = chain_result (chain sample_wots_params sample_hash [5, 6] 0 5 new_address [2, 2])
   \<and> chain sample_wots_params sample_hash [5, 6] 0 5 new_address [2, 2]
       = run_steps sample_hash [2, 2] [0, 1, 2, 3, 4] ([5, 6], new_address)
   \<and> chain sample_wots_params sample_hash [5, 6] 0 5 new_address [2, 2]
       = Inr ([25, 99], new_address\<lparr>adrs_word6 := 4\<rparr>)"
proof -
  let ?r = "([55, 213], new_address\<lparr>adrs_word6 := 2\<rparr>) :: bytes \<times> XMSS_Address"
  have h1: "(3 :: size_t) \<le> 5"
    by simp
  have h2: "unat (5 :: size_t) \<le> unat (wots_parameter sample_wots_params) - 1"
    by (simp add: sample_wots_params_def)
  have h3: "length [5, 6 :: byte] \<le> 2"
    by simp
  have first: "chain sample_wots_params sample_hash [5, 6] 0 3 new_address [2, 2] = Inr ?r"
    by (simp add: chain_eval address_eval sample_wots_params_def cong: sum.case_cong_weak)
  have last: "chain sample_wots_params sample_hash [5, 6] 0 5 new_address [2, 2]
      = Inr ([25, 99], new_address\<lparr>adrs_word6 := 4\<rparr>)"
    by (simp add: chain_eval address_eval sample_wots_params_def cong: sum.case_cong_weak)
  note comp = chain_composition [OF h1 h2, of sample_hash "[5, 6]" new_address "[2, 2]" 2]
  have whole: "chain sample_wots_params sample_hash [5, 6] 0 5 new_address [2, 2]
      = chain sample_wots_params sample_hash [55, 213] 3 (5 - 3)
          (new_address\<lparr>adrs_word6 := 2\<rparr>) [2, 2]"
    using comp [THEN conjunct1] by (simp only: first sum.case fst_conv snd_conv)
  have refl: "same_chain_context new_address new_address"
    by (rule same_chain_context_refl)
  from comp [THEN conjunct2, THEN conjunct1] first
  have both: "same_chain_context (snd ?r) new_address
      \<and> (\<forall>adrs'. same_chain_context adrs' new_address \<longrightarrow>
           chain_result (chain sample_wots_params sample_hash (fst ?r) 3 (5 - 3) adrs' [2, 2])
             = chain_result (chain sample_wots_params sample_hash [5, 6] 0 5 new_address [2, 2]))"
    by blast
  from both have ctx: "same_chain_context (new_address\<lparr>adrs_word6 := 2\<rparr>) new_address"
    by (simp only: snd_conv)
  from both refl have other:
    "chain_result (chain sample_wots_params sample_hash [55, 213] 3 (5 - 3) new_address [2, 2])
      = chain_result (chain sample_wots_params sample_hash [5, 6] 0 5 new_address [2, 2])"
    by (simp only: fst_conv)
  have range: "[0 ..< unat (5 :: size_t)] = [0, 1, 2, 3, 4]"
    by (simp add: upt_conv_Cons)
  have steps: "chain sample_wots_params sample_hash [5, 6] 0 5 new_address [2, 2]
      = run_steps sample_hash [2, 2] [0, 1, 2, 3, 4] ([5, 6], new_address)"
    using comp [THEN conjunct2, THEN conjunct2, THEN conjunct1]
    by (simp only: range)
  show ?thesis
    by (intro conjI)
      (fact h1 h2 sample_hash_width h3 first whole ctx refl other steps last)+
qed

section \<open>Recovery of the public key from a signature\<close>

lemma pub_key_from_signature_loop_step:
  assumes "i < unat (wots_len P)" and "i < length (fst st)" and "i < length msg_digest"
  shows "pub_key_from_signature_loop P H msg_digest seed i st
     = (case chain P H (fst st ! i) (ucast (msg_digest ! i))
               (wots_parameter P - 1 - ucast (msg_digest ! i))
               (set_chain_address (of_nat i) (snd st)) seed of
          Inl e \<Rightarrow> Inl e
        | Inr r \<Rightarrow>
            pub_key_from_signature_loop P H msg_digest seed (Suc i)
              ((fst st)[i := fst r], snd r))"
  using assms by (subst pub_key_from_signature_loop.simps) (simp add: Let_def)

lemma pub_key_from_signature_loop_out_of_bounds:
  assumes "i < unat (wots_len P)" and "\<not> (i < length (fst st) \<and> i < length msg_digest)"
  shows "pub_key_from_signature_loop P H msg_digest seed i st = Inl Out_Of_Bounds"
  using assms by (subst pub_key_from_signature_loop.simps) auto

lemma pub_key_from_signature_loop_done:
  assumes "\<not> i < unat (wots_len P)"
  shows "pub_key_from_signature_loop P H msg_digest seed i st = Inr st"
  using assms by (subst pub_key_from_signature_loop.simps) simp

lemma set_chain_address_twice:
  "set_chain_address c (set_chain_address i a) = set_chain_address c a"
  by (simp add: set_chain_address_def)

lemma set_chain_address_same_context:
  "same_chain_context x y \<Longrightarrow> same_chain_context (set_chain_address c x) (set_chain_address c y)"
  by (simp add: same_chain_context_def set_chain_address_def)

lemma chain_result_Inr: "chain_result r = Inr y \<longleftrightarrow> (\<exists>a. r = Inr (y, a))"
  by (cases r) (auto simp: chain_result_def)

lemma pub_key_from_signature_loop_result:
  assumes "unat (wots_len P) \<le> length result" and "unat (wots_len P) \<le> length msg_digest"
    and "\<forall>c. same_chain_context (set_chain_address c a) (set_chain_address c adrs)"
    and "\<forall>j. i \<le> j \<and> j < unat (wots_len P) \<longrightarrow>
           (\<exists>y. chain_of_digit P H msg_digest seed adrs j (result ! j) = Inr y)"
  shows "\<exists>res a'. pub_key_from_signature_loop P H msg_digest seed i (result, a) = Inr (res, a')
     \<and> length res = length result
     \<and> (\<forall>j. j < i \<or> unat (wots_len P) \<le> j \<longrightarrow> res ! j = result ! j)
     \<and> (\<forall>j. i \<le> j \<and> j < unat (wots_len P) \<longrightarrow>
          chain_of_digit P H msg_digest seed adrs j (result ! j) = Inr (res ! j))"
  using assms
proof (induction "unat (wots_len P) - i" arbitrary: i result a)
  case 0
  then have "\<not> i < unat (wots_len P)"
    by simp
  then show ?case
    by (auto simp: pub_key_from_signature_loop_done)
next
  case (Suc k)
  let ?n = "unat (wots_len P)"
  let ?c = "chain P H (result ! i) (ucast (msg_digest ! i))
              (wots_parameter P - 1 - ucast (msg_digest ! i))
              (set_chain_address (of_nat i) a) seed"
  from Suc.hyps(2) have lt: "i < ?n" and k: "k = ?n - Suc i"
    by simp_all
  from lt Suc.prems have inb: "i < length result" "i < length msg_digest"
    by simp_all
  from Suc.prems(4) lt obtain y where
    y: "chain_of_digit P H msg_digest seed adrs i (result ! i) = Inr y"
    by blast
  have "chain_result ?c = chain_of_digit P H msg_digest seed adrs i (result ! i)"
    unfolding chain_of_digit_def
    using Suc.prems(3) by (intro chain_same_context) simp
  with y obtain a1 where c: "?c = Inr (y, a1)"
    by (auto simp: chain_result_Inr)
  have step: "pub_key_from_signature_loop P H msg_digest seed i (result, a)
      = pub_key_from_signature_loop P H msg_digest seed (Suc i) (result[i := y], a1)"
    using pub_key_from_signature_loop_step [of i P "(result, a)" msg_digest H seed] lt inb c
    by simp
  have ctx: "\<forall>c. same_chain_context (set_chain_address c a1) (set_chain_address c adrs)"
  proof
    fix c'
    from chain_keeps_context [OF c]
    have "same_chain_context a1 (set_chain_address (of_nat i) a)"
      by simp
    then have "same_chain_context (set_chain_address c' a1)
        (set_chain_address c' (set_chain_address (of_nat i) a))"
      by (rule set_chain_address_same_context)
    then have "same_chain_context (set_chain_address c' a1) (set_chain_address c' a)"
      by (simp add: set_chain_address_twice)
    with Suc.prems(3) show "same_chain_context (set_chain_address c' a1)
        (set_chain_address c' adrs)"
      using same_chain_context_trans by blast
  qed
  from Suc.prems(1) have len': "?n \<le> length (result[i := y])"
    by simp
  have rest: "\<forall>j. Suc i \<le> j \<and> j < ?n \<longrightarrow>
      (\<exists>z. chain_of_digit P H msg_digest seed adrs j (result[i := y] ! j) = Inr z)"
    using Suc.prems(4) by (auto simp: nth_list_update)
  from Suc.hyps(1) [OF k len' Suc.prems(2) ctx rest]
  obtain res a' where
    run: "pub_key_from_signature_loop P H msg_digest seed (Suc i) (result[i := y], a1)
        = Inr (res, a')"
    and len: "length res = length (result[i := y])"
    and old: "\<And>j. j < Suc i \<or> ?n \<le> j \<Longrightarrow> res ! j = (result[i := y]) ! j"
    and new: "\<And>j. Suc i \<le> j \<and> j < ?n \<Longrightarrow>
        chain_of_digit P H msg_digest seed adrs j ((result[i := y]) ! j) = Inr (res ! j)"
    by blast
  have "\<forall>j. j < i \<or> ?n \<le> j \<longrightarrow> res ! j = result ! j"
    using old lt by (auto simp: nth_list_update)
  moreover have "\<forall>j. i \<le> j \<and> j < ?n \<longrightarrow>
      chain_of_digit P H msg_digest seed adrs j (result ! j) = Inr (res ! j)"
  proof (intro allI impI)
    fix j
    assume j: "i \<le> j \<and> j < ?n"
    show "chain_of_digit P H msg_digest seed adrs j (result ! j) = Inr (res ! j)"
    proof (cases "j = i")
      case True
      with old [of i] inb y show ?thesis
        by simp
    next
      case False
      with j new [of j] show ?thesis
        by simp
    qed
  qed
  ultimately show ?case
    using step run len by simp
qed

lemma pub_key_from_signature_loop_error:
  "pub_key_from_signature_loop P H msg_digest seed i st = Inl e \<Longrightarrow> e = Out_Of_Bounds"
proof (induction P H msg_digest seed i st rule: pub_key_from_signature_loop.induct)
  case (1 P H msg_digest seed i st)
  let ?c = "chain P H (fst st ! i) (ucast (msg_digest ! i))
              (wots_parameter P - 1 - ucast (msg_digest ! i))
              (set_chain_address (of_nat i) (snd st)) seed"
  show ?case
  proof (cases "i < unat (wots_len P)")
    case False
    with "1.prems" show ?thesis
      by (simp add: pub_key_from_signature_loop_done)
  next
    case lt: True
    show ?thesis
    proof (cases "i < length (fst st) \<and> i < length msg_digest")
      case False
      with lt "1.prems" show ?thesis
        by (simp add: pub_key_from_signature_loop_out_of_bounds)
    next
      case True
      show ?thesis
      proof (cases ?c)
        case (Inl e')
        with lt True "1.prems" have "e = e'"
          by (simp add: pub_key_from_signature_loop_step)
        with Inl chain_error show ?thesis
          by blast
      next
        case (Inr r)
        with lt True "1.prems" have "pub_key_from_signature_loop P H msg_digest seed (Suc i)
            ((fst st)[i := fst r], snd r) = Inl e"
          by (simp add: pub_key_from_signature_loop_step)
        with "1.IH" [OF lt True refl refl Inr] show ?thesis
          by simp
      qed
    qed
  qed
qed

lemma pub_key_from_signature_loop_short:
  assumes "length result < unat (wots_len P)" and "i \<le> length result"
  shows "pub_key_from_signature_loop P H msg_digest seed i (result, a) = Inl Out_Of_Bounds"
  using assms
proof (induction "length result - i" arbitrary: i result a)
  case 0
  then have "i < unat (wots_len P)" "\<not> i < length result"
    by simp_all
  then show ?case
    by (simp add: pub_key_from_signature_loop_out_of_bounds)
next
  case (Suc k)
  then have lt: "i < unat (wots_len P)" and inb: "i < length result"
    by simp_all
  show ?case
  proof (cases "i < length msg_digest")
    case False
    with lt show ?thesis
      by (simp add: pub_key_from_signature_loop_out_of_bounds)
  next
    case True
    let ?c = "chain P H (result ! i) (ucast (msg_digest ! i))
              (wots_parameter P - 1 - ucast (msg_digest ! i))
              (set_chain_address (of_nat i) a) seed"
    have step: "pub_key_from_signature_loop P H msg_digest seed i (result, a)
        = (case ?c of
             Inl e \<Rightarrow> Inl e
           | Inr r \<Rightarrow> pub_key_from_signature_loop P H msg_digest seed (Suc i)
                        (result[i := fst r], snd r))"
      using pub_key_from_signature_loop_step [of i P "(result, a)" msg_digest H seed] lt inb True
      by (simp split: sum.splits)
    show ?thesis
    proof (cases ?c)
      case (Inl e)
      with chain_error have "e = Out_Of_Bounds"
        by blast
      with Inl step show ?thesis
        by simp
    next
      case (Inr r)
      have "pub_key_from_signature_loop P H msg_digest seed (Suc i) (result[i := fst r], snd r)
          = Inl Out_Of_Bounds"
        using Suc.hyps(2) Suc.prems inb
        by (intro Suc.hyps(1)) simp_all
      with Inr step show ?thesis
        by simp
    qed
  qed
qed

lemma chain_of_digit_total:
  assumes "hash_width H n" and "length x \<le> n"
  shows "\<exists>y. chain_of_digit P H msg_digest seed adrs j x = Inr y"
proof -
  from chain_total [OF assms] obtain r where
    "chain P H x (ucast (msg_digest ! j)) (wots_parameter P - 1 - ucast (msg_digest ! j))
       (set_chain_address (of_nat j) adrs) seed = Inr r"
    by blast
  then show ?thesis
    by (simp add: chain_of_digit_def chain_result_def)
qed

lemmas recovery_eval = pub_key_from_signature_loop_step pub_key_from_signature_loop_done
  chain_eval address_eval sample_wots_params_def

lemma sample_sig_widths:
  "\<forall>j < unat (wots_len sample_wots_params). length (sample_sig ! j) \<le> 2"
proof -
  have "list_all (\<lambda>x. length x \<le> 2) sample_sig"
    by (simp add: sample_sig_def)
  moreover have "unat (wots_len sample_wots_params) = length sample_sig"
    by (simp add: sample_sig_def sample_wots_params_def)
  ultimately show ?thesis
    by (simp add: list_all_length)
qed



text \<open>
  C9, as the code has it. \<open>pub_key_from_signature\<close>, and with it the constructor of a
  public key from a signature, checks neither the length of the signature nor the size of
  its elements: it reads \<open>sig[j]\<close> for every \<open>j\<close> below \<open>len\<close> and masks each element
  over its whole size. With at least \<open>len\<close> elements, each of the first \<open>len\<close> of at
  most \<open>n\<close> bytes, \<open>n\<close> the output size of PRF and F (and \<open>len\<close> digits from the absent
  digit functions), every read is in range and a result is returned; with fewer than
  \<open>len\<close> elements the out-of-range read is reached. \<open>InvalidSignatureLength\<close> is never
  returned.
\<close>

theorem pub_key_from_signature_unchecked_length:
  "(unat (wots_len P) \<le> length sig \<and> unat (wots_len P) \<le> length (msg_digest_of P msg)
      \<and> hash_width H n \<and> (\<forall>j < unat (wots_len P). length (sig ! j) \<le> n) \<longrightarrow>
      (\<exists>r. pub_key_from_signature P H msg sig adrs seed = Inr r)
      \<and> (\<exists>k. public_key_of_signature P H msg sig adrs seed = Inr k))
   \<and> (length sig < unat (wots_len P) \<longrightarrow>
        pub_key_from_signature P H msg sig adrs seed = Inl Out_Of_Bounds
        \<and> public_key_of_signature P H msg sig adrs seed = Inl Out_Of_Bounds)
   \<and> pub_key_from_signature P H msg sig adrs seed \<noteq> Inl InvalidSignatureLength
   \<and> public_key_of_signature P H msg sig adrs seed \<noteq> Inl InvalidSignatureLength"
proof (intro conjI impI)
  assume ok: "unat (wots_len P) \<le> length sig \<and> unat (wots_len P) \<le> length (msg_digest_of P msg)
      \<and> hash_width H n \<and> (\<forall>j < unat (wots_len P). length (sig ! j) \<le> n)"
  then have len: "unat (wots_len P) \<le> length sig"
    and dig: "unat (wots_len P) \<le> length (msg_digest_of P msg)"
    and wd: "hash_width H n"
    and el: "\<forall>j < unat (wots_len P). length (sig ! j) \<le> n"
    by simp_all
  have ctx: "\<forall>c. same_chain_context (set_chain_address c adrs) (set_chain_address c adrs)"
    by (simp add: same_chain_context_refl)
  have chains: "\<forall>j. 0 \<le> j \<and> j < unat (wots_len P) \<longrightarrow>
      (\<exists>y. chain_of_digit P H (msg_digest_of P msg) seed adrs j (sig ! j) = Inr y)"
    using chain_of_digit_total [OF wd, of _ P "msg_digest_of P msg" seed adrs] el by blast
  from pub_key_from_signature_loop_result [OF len dig ctx chains]
  obtain res a' where
    "pub_key_from_signature_loop P H (msg_digest_of P msg) seed 0 (sig, adrs) = Inr (res, a')"
    by blast
  then have run: "pub_key_from_signature P H msg sig adrs seed = Inr (res, a')"
    by (simp add: pub_key_from_signature_def)
  then show "\<exists>r. pub_key_from_signature P H msg sig adrs seed = Inr r"
    by blast
  from run show "\<exists>k. public_key_of_signature P H msg sig adrs seed = Inr k"
    by (simp add: public_key_of_signature_def)
next
  assume "length sig < unat (wots_len P)"
  then show short: "pub_key_from_signature P H msg sig adrs seed = Inl Out_Of_Bounds"
    by (simp add: pub_key_from_signature_def pub_key_from_signature_loop_short)
  then show "public_key_of_signature P H msg sig adrs seed = Inl Out_Of_Bounds"
    by (simp add: public_key_of_signature_def)
next
  show ne: "pub_key_from_signature P H msg sig adrs seed \<noteq> Inl InvalidSignatureLength"
    using pub_key_from_signature_loop_error [of P H "msg_digest_of P msg" seed 0 "(sig, adrs)"
        InvalidSignatureLength]
    by (auto simp: pub_key_from_signature_def)
  then show "public_key_of_signature P H msg sig adrs seed \<noteq> Inl InvalidSignatureLength"
    by (auto simp: public_key_of_signature_def split: sum.splits)
qed

theorem pub_key_from_signature_unchecked_length_witness:
  "unat (wots_len sample_wots_params) \<le> length sample_sig
   \<and> unat (wots_len sample_wots_params) \<le> length (msg_digest_of sample_wots_params sample_msg)
   \<and> hash_width sample_hash 2
   \<and> list_all (\<lambda>x. length x \<le> 2) sample_sig
   \<and> (\<exists>r. pub_key_from_signature sample_wots_params sample_hash sample_msg sample_sig
              new_address [2, 2] = Inr r)
   \<and> (\<exists>k. public_key_of_signature sample_wots_params sample_hash sample_msg sample_sig
              new_address [2, 2] = Inr k)
   \<and> length (butlast sample_sig) < unat (wots_len sample_wots_params)
   \<and> pub_key_from_signature sample_wots_params sample_hash sample_msg (butlast sample_sig)
         new_address [2, 2] = Inl Out_Of_Bounds
   \<and> public_key_of_signature sample_wots_params sample_hash sample_msg (butlast sample_sig)
         new_address [2, 2] = Inl Out_Of_Bounds"
proof -
  have h1: "unat (wots_len sample_wots_params) \<le> length sample_sig"
    by (simp add: sample_sig_def sample_wots_params_def)
  have h2: "unat (wots_len sample_wots_params) \<le> length (msg_digest_of sample_wots_params sample_msg)"
    unfolding msg_digest_of_def by (simp add: sample_msg_digest) (simp add: sample_wots_params_def)
  have h3: "list_all (\<lambda>x. length x \<le> 2) sample_sig"
    by (simp add: sample_sig_def)
  have h4: "length (butlast sample_sig) < unat (wots_len sample_wots_params)"
    by (simp add: sample_sig_def sample_wots_params_def)
  note long = pub_key_from_signature_unchecked_length
    [of sample_wots_params sample_sig sample_msg sample_hash 2 new_address "[2, 2]"]
  note short = pub_key_from_signature_unchecked_length
    [of sample_wots_params "butlast sample_sig" sample_msg sample_hash 2 new_address "[2, 2]"]
  from long h1 h2 sample_hash_width sample_sig_widths have total:
    "(\<exists>r. pub_key_from_signature sample_wots_params sample_hash sample_msg sample_sig
              new_address [2, 2] = Inr r)
     \<and> (\<exists>k. public_key_of_signature sample_wots_params sample_hash sample_msg sample_sig
              new_address [2, 2] = Inr k)"
    by blast
  from short h4 have oob:
    "pub_key_from_signature sample_wots_params sample_hash sample_msg (butlast sample_sig)
         new_address [2, 2] = Inl Out_Of_Bounds
     \<and> public_key_of_signature sample_wots_params sample_hash sample_msg (butlast sample_sig)
         new_address [2, 2] = Inl Out_Of_Bounds"
    by blast
  show ?thesis
    by (intro conjI)
      (fact h1 h2 sample_hash_width h3 total [THEN conjunct1] total [THEN conjunct2] h4
         oob [THEN conjunct1] oob [THEN conjunct2])+
qed

text \<open>
  C9 as stated fails: it has every read in range and a result returned once the
  signature has \<open>len\<close> elements. On the instance, a signature of \<open>len = 7\<close> elements
  whose element 3 has three bytes, where PRF returns two, has the chain read its mask
  out of range: no public key is returned.
\<close>

theorem pub_key_from_signature_long_element_counterexample:
  "unat (wots_len sample_wots_params) \<le> length sample_long_sig
   \<and> unat (wots_len sample_wots_params) \<le> length (msg_digest_of sample_wots_params sample_msg)
   \<and> pub_key_from_signature sample_wots_params sample_hash sample_msg sample_long_sig
         new_address [2, 2] = Inl Out_Of_Bounds
   \<and> public_key_of_signature sample_wots_params sample_hash sample_msg sample_long_sig
         new_address [2, 2] = Inl Out_Of_Bounds"
proof -
  have h1: "unat (wots_len sample_wots_params) \<le> length sample_long_sig"
    by (simp add: sample_long_sig_def sample_wots_params_def)
  have h2: "unat (wots_len sample_wots_params) \<le> length (msg_digest_of sample_wots_params sample_msg)"
    unfolding msg_digest_of_def by (simp add: sample_msg_digest) (simp add: sample_wots_params_def)
  have run: "pub_key_from_signature sample_wots_params sample_hash sample_msg sample_long_sig
      new_address [2, 2] = Inl Out_Of_Bounds"
    unfolding pub_key_from_signature_def msg_digest_of_def sample_msg_digest sample_long_sig_def
    by (simp add: recovery_eval cong: sum.case_cong_weak)
  then have key: "public_key_of_signature sample_wots_params sample_hash sample_msg
      sample_long_sig new_address [2, 2] = Inl Out_Of_Bounds"
    by (simp add: public_key_of_signature_def)
  show ?thesis
    by (intro conjI) (fact h1 h2 run key)+
qed

section \<open>The authentication path\<close>

lemma int_shl_one_power: "j < 31 \<Longrightarrow> int_shl_one j = Inr (2 ^ j)"
proof -
  assume j: "j < 31"
  have "(scast (push_bit j (1 :: 32 word)) :: 64 word) = 2 ^ j"
    using j by (intro bit_word_eqI) (auto simp: bit_simps)
  with j show ?thesis
    by (simp add: int_shl_one_def)
qed

lemma xor_one_le: "(n::nat) XOR 1 \<le> n + 1"
  by (auto simp: xor_Suc_0_eq)

lemma unat_power_of_two: "j < 64 \<Longrightarrow> unat (2 ^ j :: 64 word) = 2 ^ j"
proof -
  assume j: "j < 64"
  have "(2 ^ j :: 64 word) = of_nat (2 ^ j)"
    by simp
  then have "unat (2 ^ j :: 64 word) = 2 ^ j mod 2 ^ 64"
    by (simp only: unat_of_nat) simp
  moreover from j have "(2::nat) ^ j < 2 ^ 64"
    by (simp only: power_strict_increasing_iff) 
  ultimately show ?thesis by simp
qed

lemma start_index_unat:
  assumes "unat (idx :: size_t) < 2 ^ h" and "j < h" and "h \<le> 31"
  shows "unat (((idx div 2 ^ j) XOR 1) * 2 ^ j) = ((unat idx div 2 ^ j) XOR 1) * 2 ^ j"
proof -
  from assms have j: "j < 64"
    by simp
  have d: "unat (idx div 2 ^ j) = unat idx div 2 ^ j"
    by (simp add: unat_div unat_power_of_two [OF j])
  have k: "unat ((idx div 2 ^ j) XOR 1) = (unat idx div 2 ^ j) XOR 1"
    by (simp add: unsigned_xor_eq d)
  have "((unat idx div 2 ^ j) XOR 1) * 2 ^ j \<le> (unat idx div 2 ^ j + 1) * 2 ^ j"
    using xor_one_le [of "unat idx div 2 ^ j"] by (simp only: mult_le_mono1)
  also have "\<dots> \<le> unat idx + 2 ^ j"
    by (simp add: algebra_simps)
  also have "\<dots> < 2 ^ h + 2 ^ h"
    using assms(1,2) by (intro add_less_le_mono) simp_all
  also have "\<dots> \<le> 2 ^ 31 + 2 ^ 31"
  proof -
    from assms(3) have "(2::nat) ^ h \<le> 2 ^ 31"
      by (simp only: power_increasing_iff) 
    then show ?thesis by simp
  qed
  finally have "((unat idx div 2 ^ j) XOR 1) * 2 ^ j < 2 ^ 64"
    by simp
  then show ?thesis
    by (simp add: unat_word_ariths k unat_power_of_two [OF j])
qed

lemma build_auth_path_loop_step:
  assumes "j < unat height" and "j < 31"
  shows "build_auth_path_loop K priv_key leaf_idx height j st
     = build_auth_path_loop K priv_key leaf_idx height (Suc j)
         ((fst st)[j := fst (tree_hash K priv_key (((leaf_idx div 2 ^ j) XOR 1) * 2 ^ j)
                              (of_nat j) (snd st))],
          snd (tree_hash K priv_key (((leaf_idx div 2 ^ j) XOR 1) * 2 ^ j) (of_nat j) (snd st)))"
  using assms
  by (subst build_auth_path_loop.simps) (simp add: int_shl_one_power Let_def)

lemma build_auth_path_loop_done:
  assumes "\<not> j < unat height"
  shows "build_auth_path_loop K priv_key leaf_idx height j st = Inr st"
  using assms by (subst build_auth_path_loop.simps) simp

lemma build_auth_path_loop_undefined_shift:
  assumes "j < unat height" and "32 \<le> j"
  shows "build_auth_path_loop K priv_key leaf_idx height j st = Inl Undefined_Shift"
  using assms by (subst build_auth_path_loop.simps) (simp add: int_shl_one_def)

lemma build_auth_path_loop_result:
  assumes "unat height \<le> 31" and "unat height \<le> length path"
  shows "\<exists>res. build_auth_path_loop K priv_key leaf_idx height j
             (path, auth_path_adrs K priv_key leaf_idx a0 j)
           = Inr (res, auth_path_adrs K priv_key leaf_idx a0 (max j (unat height)))
     \<and> length res = length path
     \<and> (\<forall>i. i < j \<or> unat height \<le> i \<longrightarrow> res ! i = path ! i)
     \<and> (\<forall>i. j \<le> i \<and> i < unat height \<longrightarrow>
          res ! i = fst (tree_hash K priv_key (((leaf_idx div 2 ^ i) XOR 1) * 2 ^ i) (of_nat i)
                          (auth_path_adrs K priv_key leaf_idx a0 i)))"
  using assms
proof (induction "unat height - j" arbitrary: j path)
  case 0
  then have "\<not> j < unat height" "max j (unat height) = j"
    by simp_all
  then show ?case
    by (auto simp: build_auth_path_loop_done)
next
  case (Suc k)
  let ?node = "\<lambda>i. fst (tree_hash K priv_key (((leaf_idx div 2 ^ i) XOR 1) * 2 ^ i) (of_nat i)
                          (auth_path_adrs K priv_key leaf_idx a0 i))"
  from Suc.hyps(2) have lt: "j < unat height" and k: "k = unat height - Suc j"
    by simp_all
  with Suc.prems have j31: "j < 31" and inb: "j < length path"
    by simp_all
  have step: "build_auth_path_loop K priv_key leaf_idx height j
        (path, auth_path_adrs K priv_key leaf_idx a0 j)
      = build_auth_path_loop K priv_key leaf_idx height (Suc j)
          (path[j := ?node j], auth_path_adrs K priv_key leaf_idx a0 (Suc j))"
    using build_auth_path_loop_step [OF lt j31, of K priv_key leaf_idx
        "(path, auth_path_adrs K priv_key leaf_idx a0 j)"]
    by simp
  from Suc.prems(2) have len': "unat height \<le> length (path[j := ?node j])"
    by simp
  from Suc.hyps(1) [OF k Suc.prems(1) len']
  obtain res where
    run: "build_auth_path_loop K priv_key leaf_idx height (Suc j)
          (path[j := ?node j], auth_path_adrs K priv_key leaf_idx a0 (Suc j))
        = Inr (res, auth_path_adrs K priv_key leaf_idx a0 (max (Suc j) (unat height)))"
    and len: "length res = length (path[j := ?node j])"
    and old: "\<And>i. i < Suc j \<or> unat height \<le> i \<Longrightarrow> res ! i = (path[j := ?node j]) ! i"
    and new: "\<And>i. Suc j \<le> i \<and> i < unat height \<Longrightarrow> res ! i = ?node i"
    by blast
  from lt have m: "max (Suc j) (unat height) = max j (unat height)"
    by simp
  have "\<forall>i. i < j \<or> unat height \<le> i \<longrightarrow> res ! i = path ! i"
    using old lt by (auto simp: nth_list_update)
  moreover have "\<forall>i. j \<le> i \<and> i < unat height \<longrightarrow> res ! i = ?node i"
  proof (intro allI impI)
    fix i
    assume i: "j \<le> i \<and> i < unat height"
    show "res ! i = ?node i"
    proof (cases "i = j")
      case True
      with old [of j] inb show ?thesis
        by simp
    next
      case False
      with i new [of i] show ?thesis
        by simp
    qed
  qed
  ultimately show ?case
    using step run len m by simp
qed

lemma auth_path_adrs_unchanged:
  assumes "\<forall>k s t a. snd (tree_hash K k s t a) = a"
  shows "auth_path_adrs K priv_key leaf_idx adrs j = adrs"
  using assms by (induction j) simp_all


text \<open>The operations of the instance, and its signer states, as equations.\<close>

lemmas sample_key_eval = sample_private_key_def sample_signer_def new_signature_operation_def
  reserve_unused_leaf_index_def

lemma sample_tree_hash:
  "tree_hash sample_key_ops key start_idx target_height adrs =
     (sample_digest (key_sk_seed key @ toByte start_idx 4 @ toByte target_height 4 @
        adrs_bytes adrs),
      adrs\<lparr>adrs_word5 := ucast target_height, adrs_word6 := ucast start_idx\<rparr>)"
  by (simp add: sample_key_ops_def)

lemma sample_wots_sign:
  "wots_sign sample_key_ops key msg adrs =
     (map (\<lambda>d. sample_digest (key_sk_seed key @ [d] @ adrs_bytes adrs))
        (msg_digest_of sample_wots_params msg), adrs)"
  by (simp add: sample_key_ops_def)

lemma replicate_two: "replicate 2 x = [x, x]"
  by (simp add: numeral_2_eq_2)

lemma sample_pure_tree_hash:
  "tree_hash sample_pure_key_ops key start_idx target_height adrs =
     (sample_digest (key_sk_seed key @ toByte start_idx 4 @ toByte target_height 4 @
        adrs_bytes adrs), adrs)"
  by (simp add: sample_pure_key_ops_def sample_tree_hash)

lemma sample_signer_at_2_fields:
  "m_leaf_idx sample_signer_at_2 = 2"
  "tree_height (m_xmss_params sample_signer_at_2) = 2"
  by (simp_all add: sample_signer_at_2_def sample_key_eval)

text \<open>
  C5. For a tree height \<open>h\<close> of at most 31 (the parameter sets have 10, 16 and 20),
  \<open>build_auth_path\<close> returns \<open>h\<close> nodes, and node \<open>j\<close> is
  \<open>tree_hash((floor(i / 2^j) XOR 1) * 2^j, j, ADRS)\<close> for the cached leaf index \<open>i\<close>,
  where \<open>ADRS\<close> is the caller's address set to type \<open>Hash_Tree_Address\<close> and then
  passed by reference through the earlier calls; when \<open>tree_hash\<close> hands the address
  back as it got it, that is the address set to type \<open>Hash_Tree_Address\<close> itself. For a
  leaf index below \<open>2^h\<close> the start index computed in \<open>size_t\<close> is the number
  \<open>(floor(i / 2^j) XOR 1) * 2^j\<close>.
\<close>

theorem build_auth_path_nodes:
  assumes "unat (tree_height (m_xmss_params this)) \<le> 31"
  shows "\<exists>auth_path adrs'. build_auth_path K this priv_key adrs = Inr (auth_path, adrs')
     \<and> length auth_path = unat (tree_height (m_xmss_params this))
     \<and> (\<forall>j < unat (tree_height (m_xmss_params this)).
          auth_path ! j = fst (tree_hash K priv_key
            (((m_leaf_idx this div 2 ^ j) XOR 1) * 2 ^ j) (of_nat j)
            (auth_path_adrs K priv_key (m_leaf_idx this) (set_type Hash_Tree_Address adrs) j)))
     \<and> ((\<forall>k s t a. snd (tree_hash K k s t a) = a) \<longrightarrow>
          (\<forall>j < unat (tree_height (m_xmss_params this)).
            auth_path ! j = fst (tree_hash K priv_key
              (((m_leaf_idx this div 2 ^ j) XOR 1) * 2 ^ j) (of_nat j)
              (set_type Hash_Tree_Address adrs))))
     \<and> (unat (m_leaf_idx this) < 2 ^ unat (tree_height (m_xmss_params this)) \<longrightarrow>
          (\<forall>j < unat (tree_height (m_xmss_params this)).
            unat (((m_leaf_idx this div 2 ^ j) XOR 1) * 2 ^ j)
              = ((unat (m_leaf_idx this) div 2 ^ j) XOR 1) * 2 ^ j))"
proof -
  let ?h = "unat (tree_height (m_xmss_params this))"
  let ?a0 = "set_type Hash_Tree_Address adrs"
  let ?start = "\<lambda>j. ((m_leaf_idx this div 2 ^ j) XOR 1) * 2 ^ j"
  have len0: "?h \<le> length (replicate ?h ([] :: bytes))"
    by simp
  from build_auth_path_loop_result [OF assms len0, of K priv_key "m_leaf_idx this" 0 ?a0]
  obtain res where
    run: "build_auth_path K this priv_key adrs
        = Inr (res, auth_path_adrs K priv_key (m_leaf_idx this) ?a0 ?h)"
    and len: "length res = ?h"
    and el: "\<forall>j < ?h. res ! j = fst (tree_hash K priv_key (?start j) (of_nat j)
          (auth_path_adrs K priv_key (m_leaf_idx this) ?a0 j))"
    by (auto simp: build_auth_path_def)
  have pure: "(\<forall>k s t a. snd (tree_hash K k s t a) = a) \<longrightarrow>
      (\<forall>j < ?h. res ! j = fst (tree_hash K priv_key (?start j) (of_nat j) ?a0))"
    using el by (simp add: auth_path_adrs_unchanged)
  have nat: "unat (m_leaf_idx this) < 2 ^ ?h \<longrightarrow>
      (\<forall>j < ?h. unat (?start j) = ((unat (m_leaf_idx this) div 2 ^ j) XOR 1) * 2 ^ j)"
    using assms start_index_unat [of "m_leaf_idx this" ?h] by blast
  from run len el pure nat show ?thesis
    by blast
qed

theorem build_auth_path_nodes_witness:
  "unat (tree_height (m_xmss_params sample_signer_at_2)) \<le> 31
   \<and> build_auth_path sample_key_ops sample_signer_at_2 sample_private_key new_address
       = Inr ([[12, 30], [13, 31]],
              (set_type Hash_Tree_Address new_address)\<lparr>adrs_word5 := 1, adrs_word6 := 0\<rparr>)
   \<and> [12, 30] = fst (tree_hash sample_key_ops sample_private_key 3 0
                       (set_type Hash_Tree_Address new_address))
   \<and> [13, 31] = fst (tree_hash sample_key_ops sample_private_key 0 1
                       (snd (tree_hash sample_key_ops sample_private_key 3 0
                               (set_type Hash_Tree_Address new_address))))
   \<and> (\<forall>k s t a. snd (tree_hash sample_pure_key_ops k s t a) = a)
   \<and> build_auth_path sample_pure_key_ops sample_signer_at_2 sample_private_key new_address
       = Inr ([[12, 30], [10, 44]], set_type Hash_Tree_Address new_address)
   \<and> [10, 44] = fst (tree_hash sample_pure_key_ops sample_private_key 0 1
                       (set_type Hash_Tree_Address new_address))
   \<and> unat (m_leaf_idx sample_signer_at_2)
       < 2 ^ unat (tree_height (m_xmss_params sample_signer_at_2))
   \<and> unat ((((2 :: size_t) div 2 ^ 0) XOR 1) * 2 ^ 0) = ((2 div 2 ^ 0) XOR 1) * 2 ^ 0
   \<and> unat ((((2 :: size_t) div 2 ^ 1) XOR 1) * 2 ^ 1) = ((2 div 2 ^ 1) XOR 1) * 2 ^ 1"
proof -
  let ?a0 = "set_type Hash_Tree_Address new_address"
  have h: "unat (tree_height (m_xmss_params sample_signer_at_2)) \<le> 31"
    by (simp add: sample_signer_at_2_fields)
  have pure: "\<forall>k s t a. snd (tree_hash sample_pure_key_ops k s t a) = a"
    by (simp add: sample_pure_tree_hash)
  have idx: "unat (m_leaf_idx sample_signer_at_2)
      < 2 ^ unat (tree_height (m_xmss_params sample_signer_at_2))"
    by (simp add: sample_signer_at_2_fields)
  have run: "build_auth_path sample_key_ops sample_signer_at_2 sample_private_key new_address
      = Inr ([[12, 30], [13, 31]], ?a0\<lparr>adrs_word5 := 1, adrs_word6 := 0\<rparr>)"
    unfolding build_auth_path_def sample_signer_at_2_fields
    by (simp add: build_auth_path_loop_step build_auth_path_loop_done sample_tree_hash
        sample_private_key_def address_eval sample_hash_eval replicate_two)
  have run_pure: "build_auth_path sample_pure_key_ops sample_signer_at_2 sample_private_key
      new_address = Inr ([[12, 30], [10, 44]], ?a0)"
    unfolding build_auth_path_def sample_signer_at_2_fields
    by (simp add: build_auth_path_loop_step build_auth_path_loop_done sample_pure_tree_hash
        sample_private_key_def address_eval sample_hash_eval replicate_two)
  let ?h = "unat (tree_height (m_xmss_params sample_signer_at_2))"
  let ?i = "m_leaf_idx sample_signer_at_2"
  have lt: "0 < ?h" "Suc 0 < ?h"
    by (simp_all add: sample_signer_at_2_fields)
  from build_auth_path_nodes [OF h, of sample_key_ops sample_private_key new_address]
  obtain auth_path adrs' where
    r: "build_auth_path sample_key_ops sample_signer_at_2 sample_private_key new_address
        = Inr (auth_path, adrs')"
    and el: "\<forall>j < ?h. auth_path ! j = fst (tree_hash sample_key_ops sample_private_key
        (((?i div 2 ^ j) XOR 1) * 2 ^ j) (of_nat j)
        (auth_path_adrs sample_key_ops sample_private_key ?i ?a0 j))"
    and nat: "unat ?i < 2 ^ ?h \<longrightarrow>
        (\<forall>j < ?h. unat (((?i div 2 ^ j) XOR 1) * 2 ^ j) = ((unat ?i div 2 ^ j) XOR 1) * 2 ^ j)"
    by blast
  from r run have ap: "auth_path = [[12, 30], [13, 31]]"
    by simp
  from el lt(1) have "auth_path ! 0 = fst (tree_hash sample_key_ops sample_private_key
        (((?i div 2 ^ 0) XOR 1) * 2 ^ 0) (of_nat 0)
        (auth_path_adrs sample_key_ops sample_private_key ?i ?a0 0))"
    by blast
  then have e0: "[12, 30] = fst (tree_hash sample_key_ops sample_private_key 3 0 ?a0)"
    unfolding ap by (simp add: sample_signer_at_2_fields)
  from el lt(2) have "auth_path ! Suc 0 = fst (tree_hash sample_key_ops sample_private_key
        (((?i div 2 ^ Suc 0) XOR 1) * 2 ^ Suc 0) (of_nat (Suc 0))
        (auth_path_adrs sample_key_ops sample_private_key ?i ?a0 (Suc 0)))"
    by blast
  then have e1: "[13, 31] = fst (tree_hash sample_key_ops sample_private_key 0 1
      (snd (tree_hash sample_key_ops sample_private_key 3 0 ?a0)))"
    unfolding ap by (simp add: sample_signer_at_2_fields)
  from build_auth_path_nodes [OF h, of sample_pure_key_ops sample_private_key new_address]
  obtain path_pure adrs_pure where
    rp: "build_auth_path sample_pure_key_ops sample_signer_at_2 sample_private_key new_address
        = Inr (path_pure, adrs_pure)"
    and elp: "(\<forall>k s t a. snd (tree_hash sample_pure_key_ops k s t a) = a) \<longrightarrow>
        (\<forall>j < ?h. path_pure ! j = fst (tree_hash sample_pure_key_ops sample_private_key
          (((?i div 2 ^ j) XOR 1) * 2 ^ j) (of_nat j) ?a0))"
    by blast
  from rp run_pure have pp: "path_pure = [[12, 30], [10, 44]]"
    by simp
  from elp pure lt(2) have "path_pure ! Suc 0
      = fst (tree_hash sample_pure_key_ops sample_private_key
        (((?i div 2 ^ Suc 0) XOR 1) * 2 ^ Suc 0) (of_nat (Suc 0)) ?a0)"
    by blast
  then have e1p: "[10, 44] = fst (tree_hash sample_pure_key_ops sample_private_key 0 1 ?a0)"
    unfolding pp by (simp add: sample_signer_at_2_fields)
  from nat idx lt(1) have "unat (((?i div 2 ^ 0) XOR 1) * 2 ^ 0) = ((unat ?i div 2 ^ 0) XOR 1) * 2 ^ 0"
    by blast
  then have n0: "unat ((((2 :: size_t) div 2 ^ 0) XOR 1) * 2 ^ 0) = ((2 div 2 ^ 0) XOR 1) * 2 ^ 0"
    by (simp add: sample_signer_at_2_fields)
  from nat idx lt(2) have "unat (((?i div 2 ^ Suc 0) XOR 1) * 2 ^ Suc 0)
      = ((unat ?i div 2 ^ Suc 0) XOR 1) * 2 ^ Suc 0"
    by blast
  then have n1: "unat ((((2 :: size_t) div 2 ^ 1) XOR 1) * 2 ^ 1) = ((2 div 2 ^ 1) XOR 1) * 2 ^ 1"
    by (simp add: sample_signer_at_2_fields)
  from h run e0 e1 pure run_pure e1p idx n0 n1 show ?thesis
    by blast
qed

section \<open>The signer\<close>

lemma reserve_unused_leaf_index_cases:
  "reserve_unused_leaf_index key = (Inr i, key') \<Longrightarrow>
     i = unused_leaf_index key \<and> key' = key\<lparr>unused_leaf_index := unused_leaf_index key + 1\<rparr>"
  "reserve_unused_leaf_index key = (Inl e, key') \<Longrightarrow> e = LeafExhausted \<and> key' = key"
  by (auto simp: reserve_unused_leaf_index_def split: if_splits)

lemma reserve_unused_leaf_index_failure:
  "fst (reserve_unused_leaf_index key) = Inl e \<Longrightarrow>
     reserve_unused_leaf_index key = (Inl LeafExhausted, key)"
  by (auto simp: reserve_unused_leaf_index_def split: if_splits)

lemma initialize_initialized:
  "m_is_initialized this \<Longrightarrow> initialize H this = (Inr (), this)"
  by (simp add: initialize_def)

lemma initialize_reserved:
  assumes "\<not> m_is_initialized this"
    and "reserve_unused_leaf_index (m_priv_key this) = (Inr i, key')"
  shows "initialize H this =
     (Inr (), this\<lparr>m_priv_key := key', m_leaf_idx := i,
        m_randomness := hash_prf H (key_prf key') (toByte i 32),
        m_hash := h_msg_init H (hash_prf H (key_prf key') (toByte i 32)) (key_root key')
                    (toByte i (unat (element_size (xmss_parameters key')))) (m_hash this),
        m_is_initialized := True\<rparr>)"
  using assms by (simp add: initialize_def Let_def concat_bytes_def)

lemma initialize_failed:
  assumes "\<not> m_is_initialized this"
    and "reserve_unused_leaf_index (m_priv_key this) = (Inl e, key')"
  shows "initialize H this = (Inl e, this\<lparr>m_priv_key := key'\<rparr>)"
  using assms by (simp add: initialize_def)

lemma initialize_success_initialized:
  "fst (initialize H this) = Inr u \<Longrightarrow> m_is_initialized (snd (initialize H this))"
  by (auto simp: initialize_def Let_def split: if_splits prod.splits sum.splits)

lemma update_success_initialized:
  "update H msg s0 = (Inr u, this) \<Longrightarrow> m_is_initialized this"
  using initialize_success_initialized [of H s0]
  by (auto simp: update_def split: prod.splits sum.splits)

lemma build_auth_path_total:
  assumes "unat (tree_height (m_xmss_params this)) \<le> 31"
  shows "\<exists>r. build_auth_path K this priv_key adrs = Inr r"
proof -
  let ?h = "unat (tree_height (m_xmss_params this))"
  have len0: "?h \<le> length (replicate ?h ([] :: bytes))"
    by simp
  from build_auth_path_loop_result [OF assms len0, of K priv_key "m_leaf_idx this" 0
      "set_type Hash_Tree_Address adrs"]
  show ?thesis
    by (auto simp: build_auth_path_def)
qed

lemma generate_tree_signature_eq:
  assumes "build_auth_path K this priv_key adrs = Inr (auth_path, a1)"
  shows "generate_tree_signature K this msg priv_key adrs =
     Inr (\<lparr>m_ots_sig = fst (wots_sign K priv_key msg
               (set_ots_address (ucast (m_leaf_idx this)) (set_type OTS_Hash_Address a1))),
            m_auth_path = auth_path\<rparr>,
          snd (wots_sign K priv_key msg
               (set_ots_address (ucast (m_leaf_idx this)) (set_type OTS_Hash_Address a1))))"
  using assms by (simp add: generate_tree_signature_def Let_def)

lemma generate_tree_signature_total:
  assumes "unat (tree_height (m_xmss_params this)) \<le> 31"
  shows "\<exists>ts a'. generate_tree_signature K this msg priv_key adrs = Inr (ts, a')"
proof -
  from build_auth_path_total [OF assms] obtain auth_path a1
    where "build_auth_path K this priv_key adrs = Inr (auth_path, a1)"
    by fastforce
  then show ?thesis
    by (simp add: generate_tree_signature_eq)
qed

lemma sign_initialized:
  assumes "m_is_initialized this"
    and "generate_tree_signature K (this\<lparr>m_hash := snd (h_msg_final H (m_hash this))\<rparr>)
           (fst (h_msg_final H (m_hash this))) (m_priv_key this) new_address = Inr (ts, a')"
  shows "sign H K rng this =
     (Inr (signature_bytes \<lparr>sig_leaf_idx = m_leaf_idx this, sig_randomness = m_randomness this,
                             sig_tree_sig = ts\<rparr>),
      this\<lparr>m_hash := snd (h_msg_final H (m_hash this)), m_is_initialized := False\<rparr>, rng)"
  using assms by (simp add: sign_def initialize_initialized sign_msg_hash_def Let_def)

text \<open>A run of the signer on the instance.\<close>

lemma sample_initialize:
  "initialize sample_hash sample_signer =
     (Inr (), \<lparr>m_xmss_params = \<lparr>element_size = 2, tree_height = 2\<rparr>,
        m_hash = [0, 2, 12, 112, 9, 8, 0, 0],
        m_priv_key = sample_private_key\<lparr>unused_leaf_index := 1\<rparr>,
        m_randomness = [12, 112], m_leaf_idx = 0, m_is_initialized = True\<rparr>)"
proof -
  have n: "\<not> m_is_initialized sample_signer"
    by (simp add: sample_key_eval)
  have r: "reserve_unused_leaf_index (m_priv_key sample_signer)
      = (Inr 0, sample_private_key\<lparr>unused_leaf_index := 1\<rparr>)"
    by (simp add: sample_key_eval)
  show ?thesis
    unfolding initialize_reserved [OF n r]
    by (simp add: sample_key_eval sample_hash_eval)
qed

lemma sample_updated_eq:
  "sample_updated =
     \<lparr>m_xmss_params = \<lparr>element_size = 2, tree_height = 2\<rparr>,
      m_hash = [0, 2, 12, 112, 9, 8, 0, 0, 97],
      m_priv_key = sample_private_key\<lparr>unused_leaf_index := 1\<rparr>,
      m_randomness = [12, 112], m_leaf_idx = 0, m_is_initialized = True\<rparr>"
  by (simp add: sample_updated_def update_def sample_initialize) (simp add: sample_hash_def)

lemma sample_update:
  "update sample_hash [0x61] sample_signer = (Inr (), sample_updated)"
  by (simp add: sample_updated_def update_def sample_initialize)

lemma sample_final:
  "h_msg_final sample_hash (m_hash sample_updated) = ([247, 135], [])"
  by (simp add: sample_updated_eq) (simp add: sample_hash_def sample_digest_def)

lemma sample_auth_path:
  "build_auth_path sample_key_ops (sample_updated\<lparr>m_hash := []\<rparr>)
     (sample_private_key\<lparr>unused_leaf_index := 1\<rparr>) new_address
   = Inr ([[10, 124], [13, 31]], (set_type Hash_Tree_Address new_address)\<lparr>adrs_word5 := 1, adrs_word6 := 2\<rparr>)"
  unfolding build_auth_path_def
  by (simp add: sample_updated_eq)
    (simp add: build_auth_path_loop_step build_auth_path_loop_done sample_tree_hash
      sample_private_key_def address_eval sample_hash_eval replicate_two)

lemma sample_tree_signature:
  "generate_tree_signature sample_key_ops (sample_updated\<lparr>m_hash := []\<rparr>) [247, 135]
     (sample_private_key\<lparr>unused_leaf_index := 1\<rparr>) new_address
   = Inr (\<lparr>m_ots_sig = [[22, 42], [14, 34], [15, 163], [14, 34], [7, 155], [8, 28], [14, 34]],
            m_auth_path = [[10, 124], [13, 31]]\<rparr>, new_address)"
  unfolding generate_tree_signature_eq [OF sample_auth_path]
  by (simp add: sample_updated_eq)
    (simp add: sample_wots_sign sample_private_key_def sample_wots_eval address_eval
      sample_hash_eval)

lemma sample_sign:
  "sign sample_hash sample_key_ops () sample_updated =
     (Inr [0, 0, 0, 0, 12, 112, 22, 42, 14, 34, 15, 163, 14, 34, 7, 155, 8, 28, 14, 34,
           10, 124, 13, 31],
      sample_updated\<lparr>m_hash := [], m_is_initialized := False\<rparr>, ())"
proof -
  have init: "m_is_initialized sample_updated"
    by (simp add: sample_updated_eq)
  have key: "m_priv_key sample_updated = sample_private_key\<lparr>unused_leaf_index := 1\<rparr>"
    by (simp add: sample_updated_eq)
  have gen: "generate_tree_signature sample_key_ops
      (sample_updated\<lparr>m_hash := snd (h_msg_final sample_hash (m_hash sample_updated))\<rparr>)
      (fst (h_msg_final sample_hash (m_hash sample_updated))) (m_priv_key sample_updated)
      new_address
    = Inr (\<lparr>m_ots_sig = [[22, 42], [14, 34], [15, 163], [14, 34], [7, 155], [8, 28], [14, 34]],
             m_auth_path = [[10, 124], [13, 31]]\<rparr>, new_address)"
    by (simp only: sample_final key fst_conv snd_conv sample_tree_signature)
  show ?thesis
    unfolding sign_initialized [OF init gen] sample_final snd_conv
    by (simp add: signature_bytes_def sample_updated_eq toByte_def upt_conv_Cons)
qed

text \<open>
  C6. \<open>initialize\<close> does nothing on a signer that is initialized. Otherwise, when the
  private key hands out leaf index \<open>i\<close>, it caches \<open>i\<close>, computes the randomness
  \<open>r = PRF(SK_PRF, toByte(i, 32))\<close>, opens the message hash with \<open>r\<close>, the root and
  \<open>toByte(i, n)\<close> for the element size \<open>n\<close>, caches \<open>r\<close> and sets the flag; the PRF
  seed, the root and the parameters are those of the key before the reservation. A second
  call after a successful one changes nothing.
\<close>

theorem initialize_reserves_once:
  "(m_is_initialized this \<longrightarrow> initialize H this = (Inr (), this))
   \<and> (\<not> m_is_initialized this \<and> reserve_unused_leaf_index (m_priv_key this) = (Inr i, key') \<longrightarrow>
        initialize H this =
          (Inr (), this\<lparr>m_priv_key := key', m_leaf_idx := i,
             m_randomness := hash_prf H (key_prf key') (toByte i 32),
             m_hash := h_msg_init H (hash_prf H (key_prf key') (toByte i 32)) (key_root key')
                         (toByte i (unat (element_size (xmss_parameters key')))) (m_hash this),
             m_is_initialized := True\<rparr>)
        \<and> key_prf key' = key_prf (m_priv_key this)
        \<and> key_root key' = key_root (m_priv_key this)
        \<and> xmss_parameters key' = xmss_parameters (m_priv_key this))
   \<and> (fst (initialize H this) = Inr () \<longrightarrow>
        initialize H (snd (initialize H this)) = (Inr (), snd (initialize H this)))"
proof (intro conjI impI)
  assume "m_is_initialized this"
  then show "initialize H this = (Inr (), this)"
    by (rule initialize_initialized)
next
  assume a: "\<not> m_is_initialized this
      \<and> reserve_unused_leaf_index (m_priv_key this) = (Inr i, key')"
  then show "initialize H this =
          (Inr (), this\<lparr>m_priv_key := key', m_leaf_idx := i,
             m_randomness := hash_prf H (key_prf key') (toByte i 32),
             m_hash := h_msg_init H (hash_prf H (key_prf key') (toByte i 32)) (key_root key')
                         (toByte i (unat (element_size (xmss_parameters key')))) (m_hash this),
             m_is_initialized := True\<rparr>)"
    by (simp add: initialize_reserved)
  from a have "key' = (m_priv_key this)\<lparr>unused_leaf_index := unused_leaf_index (m_priv_key this) + 1\<rparr>"
    using reserve_unused_leaf_index_cases(1) by blast
  then show "key_prf key' = key_prf (m_priv_key this)"
    and "key_root key' = key_root (m_priv_key this)"
    and "xmss_parameters key' = xmss_parameters (m_priv_key this)"
    by simp_all
next
  assume "fst (initialize H this) = Inr ()"
  then have "m_is_initialized (snd (initialize H this))"
    by (rule initialize_success_initialized)
  then show "initialize H (snd (initialize H this)) = (Inr (), snd (initialize H this))"
    by (rule initialize_initialized)
qed

theorem initialize_reserves_once_witness:
  "\<not> m_is_initialized sample_signer
   \<and> reserve_unused_leaf_index (m_priv_key sample_signer)
       = (Inr 0, sample_private_key\<lparr>unused_leaf_index := 1\<rparr>)
   \<and> initialize sample_hash sample_signer =
       (Inr (), sample_signer\<lparr>m_priv_key := sample_private_key\<lparr>unused_leaf_index := 1\<rparr>,
          m_leaf_idx := 0, m_randomness := [12, 112],
          m_hash := [0, 2, 12, 112, 9, 8, 0, 0], m_is_initialized := True\<rparr>)
   \<and> fst (initialize sample_hash sample_signer) = Inr ()
   \<and> initialize sample_hash (snd (initialize sample_hash sample_signer))
       = (Inr (), snd (initialize sample_hash sample_signer))
   \<and> m_is_initialized sample_updated
   \<and> initialize sample_hash sample_updated = (Inr (), sample_updated)"
proof -
  have n: "\<not> m_is_initialized sample_signer"
    by (simp add: sample_key_eval)
  have r: "reserve_unused_leaf_index (m_priv_key sample_signer)
      = (Inr 0, sample_private_key\<lparr>unused_leaf_index := 1\<rparr>)"
    by (simp add: sample_key_eval)
  have u: "m_is_initialized sample_updated"
    by (simp add: sample_updated_eq)
  note fresh = initialize_reserves_once [of sample_signer sample_hash 0
      "sample_private_key\<lparr>unused_leaf_index := 1\<rparr>"]
  note again = initialize_reserves_once [of sample_updated sample_hash 0 sample_private_key]
  from fresh n r have "initialize sample_hash sample_signer =
       (Inr (), sample_signer\<lparr>m_priv_key := sample_private_key\<lparr>unused_leaf_index := 1\<rparr>,
          m_leaf_idx := 0,
          m_randomness := hash_prf sample_hash
            (key_prf (sample_private_key\<lparr>unused_leaf_index := 1\<rparr>)) (toByte 0 32),
          m_hash := h_msg_init sample_hash
            (hash_prf sample_hash (key_prf (sample_private_key\<lparr>unused_leaf_index := 1\<rparr>))
               (toByte 0 32))
            (key_root (sample_private_key\<lparr>unused_leaf_index := 1\<rparr>))
            (toByte 0 (unat (element_size (xmss_parameters
               (sample_private_key\<lparr>unused_leaf_index := 1\<rparr>)))))
            (m_hash sample_signer),
          m_is_initialized := True\<rparr>)"
    by blast
  then have i: "initialize sample_hash sample_signer =
       (Inr (), sample_signer\<lparr>m_priv_key := sample_private_key\<lparr>unused_leaf_index := 1\<rparr>,
          m_leaf_idx := 0, m_randomness := [12, 112],
          m_hash := [0, 2, 12, 112, 9, 8, 0, 0], m_is_initialized := True\<rparr>)"
    by (simp add: sample_private_key_def sample_hash_eval)
  then have f: "fst (initialize sample_hash sample_signer) = Inr ()"
    by simp
  with fresh have twice: "initialize sample_hash (snd (initialize sample_hash sample_signer))
       = (Inr (), snd (initialize sample_hash sample_signer))"
    by blast
  from again u have "initialize sample_hash sample_updated = (Inr (), sample_updated)"
    by blast
  with n r i f twice u show ?thesis
    by blast
qed

text \<open>
  C7. When the signer is not initialized and \<open>reserve_unused_leaf_index\<close> fails with
  \<open>LeafExhausted\<close>, \<open>initialize\<close>, \<open>update\<close> and \<open>sign\<close> return that error, the signer is
  left as it was, with the flag still false, no signature bytes are returned, and signing
  again fails in the same way.
\<close>

theorem leaf_exhausted_surfaces:
  assumes "\<not> m_is_initialized this"
    and "fst (reserve_unused_leaf_index (m_priv_key this)) = Inl LeafExhausted"
  shows "initialize H this = (Inl LeafExhausted, this)
     \<and> \<not> m_is_initialized (snd (initialize H this))
     \<and> update H msg this = (Inl LeafExhausted, this)
     \<and> sign H K rng this = (Inl LeafExhausted, this, rng)
     \<and> sign H K rng' (fst (snd (sign H K rng this))) = (Inl LeafExhausted, this, rng')"
proof -
  from assms(2) have "reserve_unused_leaf_index (m_priv_key this)
      = (Inl LeafExhausted, m_priv_key this)"
    by (rule reserve_unused_leaf_index_failure)
  from initialize_failed [OF assms(1) this]
  have init: "initialize H this = (Inl LeafExhausted, this)"
    by simp
  have s1: "sign H K rng this = (Inl LeafExhausted, this, rng)"
    by (simp add: sign_def init)
  have s2: "sign H K rng' this = (Inl LeafExhausted, this, rng')"
    by (simp add: sign_def init)
  have u: "update H msg this = (Inl LeafExhausted, this)"
    by (simp add: update_def init)
  from init assms(1) s1 s2 u show ?thesis
    by simp
qed

theorem leaf_exhausted_surfaces_witness:
  "\<not> m_is_initialized sample_exhausted
   \<and> fst (reserve_unused_leaf_index (m_priv_key sample_exhausted)) = Inl LeafExhausted
   \<and> initialize sample_hash sample_exhausted = (Inl LeafExhausted, sample_exhausted)
   \<and> \<not> m_is_initialized (snd (initialize sample_hash sample_exhausted))
   \<and> update sample_hash [0x61] sample_exhausted = (Inl LeafExhausted, sample_exhausted)
   \<and> sign sample_hash sample_key_ops () sample_exhausted
       = (Inl LeafExhausted, sample_exhausted, ())
   \<and> sign sample_hash sample_key_ops ()
         (fst (snd (sign sample_hash sample_key_ops () sample_exhausted)))
       = (Inl LeafExhausted, sample_exhausted, ())"
proof -
  have h1: "\<not> m_is_initialized sample_exhausted"
    by (simp add: sample_exhausted_def new_signature_operation_def)
  have h2: "fst (reserve_unused_leaf_index (m_priv_key sample_exhausted)) = Inl LeafExhausted"
    by (simp add: sample_exhausted_def sample_key_eval)
  from leaf_exhausted_surfaces [OF h1 h2, of sample_hash "[0x61]" sample_key_ops "()" "()"] h1 h2
  show ?thesis
    by blast
qed

text \<open>
  C8. \<open>sign\<close> does not touch its random number generator: the generator comes back as
  it went in, and the bytes returned and the state left behind are the same for any two
  generators.
\<close>

theorem sign_ignores_rng:
  "fst (sign H K rng1 this) = fst (sign H K rng2 this)
   \<and> fst (snd (sign H K rng1 this)) = fst (snd (sign H K rng2 this))
   \<and> snd (snd (sign H K rng1 this)) = rng1"
  by (simp add: sign_def Let_def split: prod.splits sum.splits)

text \<open>
  C1, as the code has it. On a signer state that \<open>update\<close> has returned, with a tree
  height of at most 31, \<open>sign\<close> finalizes the message hash, computes the tree signature
  for it, returns the serialization of leaf index, randomness and tree signature, and
  resets the flag. The randomness buffer is left as it was: it still holds the \<open>r\<close> of
  the signature.
\<close>

theorem sign_after_update:
  assumes "update H msg s0 = (Inr (), this)"
    and "unat (tree_height (m_xmss_params this)) \<le> 31"
  shows "\<exists>ts adrs'.
       generate_tree_signature K (this\<lparr>m_hash := snd (h_msg_final H (m_hash this))\<rparr>)
         (fst (h_msg_final H (m_hash this))) (m_priv_key this) new_address = Inr (ts, adrs')
     \<and> sign H K rng this =
         (Inr (signature_bytes \<lparr>sig_leaf_idx = m_leaf_idx this,
                 sig_randomness = m_randomness this, sig_tree_sig = ts\<rparr>),
          this\<lparr>m_hash := snd (h_msg_final H (m_hash this)), m_is_initialized := False\<rparr>, rng)
     \<and> m_randomness (fst (snd (sign H K rng this))) = m_randomness this"
proof -
  let ?s2 = "this\<lparr>m_hash := snd (h_msg_final H (m_hash this))\<rparr>"
  from assms(1) have init: "m_is_initialized this"
    by (rule update_success_initialized)
  from assms(2) have h: "unat (tree_height (m_xmss_params ?s2)) \<le> 31"
    by simp
  from generate_tree_signature_total [OF h]
  obtain ts a' where
    gen: "generate_tree_signature K ?s2 (fst (h_msg_final H (m_hash this))) (m_priv_key this)
        new_address = Inr (ts, a')"
    by blast
  note s = sign_initialized [OF init gen, of rng]
  have "m_randomness (fst (snd (sign H K rng this))) = m_randomness this"
    by (simp add: s)
  with gen s show ?thesis
    by blast
qed

theorem sign_after_update_witness:
  "update sample_hash [0x61] sample_signer = (Inr (), sample_updated)
   \<and> unat (tree_height (m_xmss_params sample_updated)) \<le> 31
   \<and> sign sample_hash sample_key_ops () sample_updated =
       (Inr (signature_bytes \<lparr>sig_leaf_idx = 0, sig_randomness = [12, 112],
          sig_tree_sig = \<lparr>m_ots_sig = [[22, 42], [14, 34], [15, 163], [14, 34], [7, 155],
                                          [8, 28], [14, 34]],
                          m_auth_path = [[10, 124], [13, 31]]\<rparr>\<rparr>),
        sample_updated\<lparr>m_hash := [], m_is_initialized := False\<rparr>, ())
   \<and> m_randomness (fst (snd (sign sample_hash sample_key_ops () sample_updated)))
       = m_randomness sample_updated"
proof -
  have h1: "update sample_hash [0x61] sample_signer = (Inr (), sample_updated)"
    by (rule sample_update)
  have h2: "unat (tree_height (m_xmss_params sample_updated)) \<le> 31"
    by (simp add: sample_updated_eq)
  have key: "m_priv_key sample_updated = sample_private_key\<lparr>unused_leaf_index := 1\<rparr>"
    by (simp add: sample_updated_eq)
  from sign_after_update [OF h1 h2, of sample_key_ops "()"]
  obtain ts adrs' where
    gen: "generate_tree_signature sample_key_ops (sample_updated\<lparr>m_hash := []\<rparr>) [247, 135]
        (sample_private_key\<lparr>unused_leaf_index := 1\<rparr>) new_address = Inr (ts, adrs')"
    and run: "sign sample_hash sample_key_ops () sample_updated =
        (Inr (signature_bytes \<lparr>sig_leaf_idx = m_leaf_idx sample_updated,
           sig_randomness = m_randomness sample_updated, sig_tree_sig = ts\<rparr>),
         sample_updated\<lparr>m_hash := [], m_is_initialized := False\<rparr>, ())"
    and keep: "m_randomness (fst (snd (sign sample_hash sample_key_ops () sample_updated)))
        = m_randomness sample_updated"
    unfolding sample_final key fst_conv snd_conv by blast
  from gen have ts: "ts = \<lparr>m_ots_sig = [[22, 42], [14, 34], [15, 163], [14, 34], [7, 155],
      [8, 28], [14, 34]], m_auth_path = [[10, 124], [13, 31]]\<rparr>"
    by (simp add: sample_tree_signature)
  have "m_leaf_idx sample_updated = 0" "m_randomness sample_updated = [12, 112]"
    by (simp_all add: sample_updated_eq)
  with run ts have "sign sample_hash sample_key_ops () sample_updated =
       (Inr (signature_bytes \<lparr>sig_leaf_idx = 0, sig_randomness = [12, 112],
          sig_tree_sig = \<lparr>m_ots_sig = [[22, 42], [14, 34], [15, 163], [14, 34], [7, 155],
                                          [8, 28], [14, 34]],
                          m_auth_path = [[10, 124], [13, 31]]\<rparr>\<rparr>),
        sample_updated\<lparr>m_hash := [], m_is_initialized := False\<rparr>, ())"
    by simp
  with h1 h2 keep show ?thesis
    by blast
qed

text \<open>
  C1 as stated fails: it has \<open>sign\<close> zeroize the randomness buffer. On the instance,
  after \<open>update\<close> with the byte \<open>0x61\<close>, \<open>sign\<close> returns a signature whose bytes 4 and 5 are
  the randomness \<open>[12, 112]\<close>, and the buffer of the signer still holds these two bytes.
\<close>

theorem sign_keeps_randomness_counterexample:
  "update sample_hash [0x61] sample_signer = (Inr (), sample_updated)
   \<and> fst (sign sample_hash sample_key_ops () sample_updated)
       = Inr ([0, 0, 0, 0] @ [12, 112] @
              [22, 42, 14, 34, 15, 163, 14, 34, 7, 155, 8, 28, 14, 34] @ [10, 124, 13, 31])
   \<and> m_randomness (fst (snd (sign sample_hash sample_key_ops () sample_updated))) = [12, 112]
   \<and> m_randomness (fst (snd (sign sample_hash sample_key_ops () sample_updated))) \<noteq> []
   \<and> m_randomness (fst (snd (sign sample_hash sample_key_ops () sample_updated))) \<noteq> [0, 0]"
  by (simp add: sample_update sample_sign) (simp add: sample_updated_eq)

section \<open>Equality of public keys\<close>

text \<open>
  C10. \<open>operator==\<close> holds exactly when the key data of the two keys are equal, whatever
  their public seeds and parameter sets, and \<open>operator!=\<close> is its negation.
\<close>

theorem operator_eq_compares_key_data:
  "operator_eq k1 k2 = (key_data k1 = key_data k2)
   \<and> operator_neq k1 k2 = (\<not> operator_eq k1 k2)
   \<and> operator_eq (k\<lparr>m_public_seed := seed1, m_wots_params := P1\<rparr>)
        (k\<lparr>m_public_seed := seed2, m_wots_params := P2\<rparr>)"
  by (simp add: operator_eq_def operator_neq_def key_data_def)

end
